theory Spec2Isabelle
  imports Main "HOL-Library.Multiset" "HOL-Library.Product_Lexorder" "HOL-Library.List_Lexorder"
    "HOL-Library.Char_ord" "HOL-Library.AList"
begin

section \<open>Definitions: the embedded program\<close>

subsection \<open>Errors and protobuf integer fields\<close>

text \<open>
  Every exception the embedded code can raise is a value of this type. A loop whose body
  may raise stops at the first error (\<open>fold_err\<close> for a loop that updates a state,
  \<open>map_err\<close> for one that produces a value per element).

  The repeated fields \<open>record_ids\<close> and \<open>record_offsets\<close> of the messages are
  \<open>int64\<close> fields: storing a Python integer outside the signed 64-bit range into one,
  in a constructor or by assignment to an element, raises \<open>ValueError\<close>.
\<close>

datatype py_error =
    ValueError | TypeError | ZeroDivisionError | OverflowError | IndexError
  | RuntimeError | RegexError | IOError

fun fold_err :: "('a \<Rightarrow> 's \<Rightarrow> py_error + 's) \<Rightarrow> 'a list \<Rightarrow> 's \<Rightarrow> py_error + 's" where
  "fold_err f [] s = Inr s"
| "fold_err f (x # xs) s = (case f x s of Inl e \<Rightarrow> Inl e | Inr s' \<Rightarrow> fold_err f xs s')"

fun map_err :: "('a \<Rightarrow> py_error + 'b) \<Rightarrow> 'a list \<Rightarrow> py_error + 'b list" where
  "map_err f [] = Inr []"
| "map_err f (x # xs) =
     (case f x of
        Inl e \<Rightarrow> Inl e
      | Inr y \<Rightarrow> (case map_err f xs of Inl e \<Rightarrow> Inl e | Inr ys \<Rightarrow> Inr (y # ys)))"

definition int64_ok :: "int \<Rightarrow> bool" where
  "int64_ok v = (- 9223372036854775808 \<le> v \<and> v \<le> 9223372036854775807)"

subsection \<open>Trigram posting lists and delta encoding (trigram.py)\<close>

text \<open>
  A \<open>PostingList\<close> message carries two repeated \<open>int64\<close> fields;
  \<open>new_PostingList\<close> is the constructor call
  \<open>messages_pb2.PostingList(record_ids=..., record_offsets=...)\<close>. The two delta
  functions of the source mutate the \<open>record_ids\<close> field in place and return nothing;
  the model returns the updated message, or the error raised by an assignment of a value
  that does not fit the field. The source loops over \<open>range(1, len(record_ids))\<close>,
  which is evaluated once, so each loop runs over \<open>[1..<length ids]\<close>. The encoding
  loop carries the variable \<open>last\<close> next to the list.
\<close>

record PostingList =
  record_ids :: "int list"
  record_offsets :: "int list"

definition new_PostingList :: "int list \<Rightarrow> int list \<Rightarrow> py_error + PostingList" where
  "new_PostingList ids offsets =
     (if list_all int64_ok ids \<and> list_all int64_ok offsets
      then Inr \<lparr>record_ids = ids, record_offsets = offsets\<rparr>
      else Inl ValueError)"

definition delta_encode_step :: "nat \<Rightarrow> int list \<times> int \<Rightarrow> py_error + int list \<times> int" where
  "delta_encode_step i s =
     (case s of (ids, prev) \<Rightarrow>
        if int64_ok (ids ! i - prev) then Inr (ids[i := ids ! i - prev], ids ! i)
        else Inl ValueError)"

definition delta_encode :: "PostingList \<Rightarrow> py_error + PostingList" where
  "delta_encode posting_list =
     (if record_ids posting_list = [] then Inr posting_list
      else
        (case fold_err delta_encode_step [1..<length (record_ids posting_list)]
                (record_ids posting_list, record_ids posting_list ! 0) of
           Inl e \<Rightarrow> Inl e
         | Inr s \<Rightarrow> Inr (posting_list\<lparr>record_ids := fst s\<rparr>)))"

definition delta_decode_step :: "nat \<Rightarrow> int list \<Rightarrow> py_error + int list" where
  "delta_decode_step i ids =
     (if int64_ok (ids ! i + ids ! (i - 1)) then Inr (ids[i := ids ! i + ids ! (i - 1)])
      else Inl ValueError)"

definition delta_decode :: "PostingList \<Rightarrow> py_error + PostingList" where
  "delta_decode posting_list =
     (if record_ids posting_list = [] then Inr posting_list
      else
        (case fold_err delta_decode_step [1..<length (record_ids posting_list)]
                (record_ids posting_list) of
           Inl e \<Rightarrow> Inl e
         | Inr ids \<Rightarrow> Inr (posting_list\<lparr>record_ids := ids\<rparr>)))"

text \<open>
  A list of record ids can be held by the field and delta encoded when its elements and
  the differences of neighbouring elements are \<open>int64\<close> values.
\<close>

definition delta_representable :: "int list \<Rightarrow> bool" where
  "delta_representable ids =
     (list_all int64_ok ids \<and> list_all (\<lambda>(a, b). int64_ok (b - a)) (zip ids (tl ids)))"

subsection \<open>Field-path pattern engine (generate\_logic.py)\<close>

text \<open>
  The matcher classes become one datatype; \<open>Pattern\<close> holds a sequence of matchers and
  is modelled by that list. \<open>Pattern.match\<close> and the \<open>match\<close> methods of the
  matcher classes call each other, so they are one mutually recursive function;
  \<open>matcher_match\<close> dispatches on the class of the matcher as the method call does.
\<close>

datatype matcher =
    ExactMatcher string
  | WildcardMatcher
  | DoubleWildcardMatcher
  | SetMatcher "string list"

function pattern_match :: "matcher list \<Rightarrow> string list \<Rightarrow> nat \<Rightarrow> bool"
  and matcher_match :: "matcher \<Rightarrow> string list \<Rightarrow> matcher list \<Rightarrow> nat \<Rightarrow> bool" where
  "pattern_match matchers field_path pattern_index =
     (if pattern_index \<ge> length matchers then field_path = []
      else if field_path = [] then
        list_all (\<lambda>m. m = DoubleWildcardMatcher) (drop pattern_index matchers)
      else matcher_match (matchers ! pattern_index) field_path matchers pattern_index)"
| "matcher_match (ExactMatcher name) field_path pattern pattern_index =
     (if field_path = [] then False
      else if name = hd field_path then pattern_match pattern (tl field_path) (pattern_index + 1)
      else False)"
| "matcher_match WildcardMatcher field_path pattern pattern_index =
     (if field_path = [] then False
      else pattern_match pattern (tl field_path) (pattern_index + 1))"
| "matcher_match DoubleWildcardMatcher field_path pattern pattern_index =
     (if pattern_match pattern field_path (pattern_index + 1) then True
      else if field_path \<noteq> [] then
        matcher_match DoubleWildcardMatcher (tl field_path) pattern pattern_index
      else False)"
| "matcher_match (SetMatcher field_names) field_path pattern pattern_index =
     (if field_path = [] then False
      else if hd field_path \<in> set field_names then
        pattern_match pattern (tl field_path) (pattern_index + 1)
      else False)"
  by pat_completeness auto
termination
  by (relation "measure (\<lambda>x. case x of
          Inl (ms, fp, i) \<Rightarrow> (if i \<ge> length ms then 0 else 2 * (length fp + (length ms - i)) + 2)
        | Inr (m, fp, ms, i) \<Rightarrow> 2 * (length fp + (length ms - i)) + 1)")
     auto

text \<open>
  \<open>str.strip()\<close> removes leading and trailing whitespace; on the code points below 256
  the whitespace characters of Python are the ones listed in \<open>py_isspace\<close>.
  \<open>str.split(",")\<close> always returns at least one piece.
\<close>

definition py_isspace :: "char \<Rightarrow> bool" where
  "py_isspace c = (of_char c \<in> {9, 10, 11, 12, 13, 28, 29, 30, 31, 32, 133, 160 :: nat})"

definition py_strip :: "string \<Rightarrow> string" where
  "py_strip s = rev (dropWhile py_isspace (rev (dropWhile py_isspace s)))"

fun py_split :: "char \<Rightarrow> string \<Rightarrow> string list" where
  "py_split sep [] = [] # []"
| "py_split sep (c # cs) =
     (if c = sep then [] # py_split sep cs
      else (case py_split sep cs of [] \<Rightarrow> [c] # [] | w # ws \<Rightarrow> (c # w) # ws))"

text \<open>
  \<open>_parse_field_set\<close> uses \<open>re.fullmatch(r"\\{(.*)\\}", field_str)\<close>: the string
  starts with an opening brace, ends with a closing brace, and nothing in between is a
  newline (the dot of a regular expression does not match one).
\<close>

definition parse_field_set :: "string \<Rightarrow> string list" where
  "parse_field_set field_str =
     (if 2 \<le> length field_str \<and> hd field_str = CHR ''{'' \<and> last field_str = CHR ''}''
         \<and> CHR 0x0A \<notin> set (butlast (tl field_str))
      then map py_strip (py_split CHR '','' (butlast (tl field_str)))
      else [field_str])"

text \<open>
  \<open>parse_pattern\<close> splits the pattern at dots outside braces, one character at a time,
  and maps each component to a matcher.
\<close>

definition parse_step :: "char \<Rightarrow> string list \<times> string \<times> int \<Rightarrow> string list \<times> string \<times> int" where
  "parse_step c s = (case s of (components, current_component, brace_level) \<Rightarrow>
     if c = CHR ''{'' then (components, current_component @ [c], brace_level + 1)
     else if c = CHR ''}'' then (components, current_component @ [c], brace_level - 1)
     else if c = CHR ''.'' \<and> brace_level = 0 then (components @ [current_component], [], brace_level)
     else (components, current_component @ [c], brace_level))"

definition component_matcher :: "string \<Rightarrow> matcher" where
  "component_matcher component =
     (if component = ''**'' then DoubleWildcardMatcher
      else if component = ''*'' then WildcardMatcher
      else if component \<noteq> [] \<and> hd component = CHR ''{'' \<and> last component = CHR ''}''
        then SetMatcher (parse_field_set component)
      else ExactMatcher component)"

definition parse_pattern :: "string \<Rightarrow> matcher list" where
  "parse_pattern pattern_str =
     (case fold parse_step pattern_str ([], [], 0) of (components, current_component, brace_level) \<Rightarrow>
        map component_matcher
          (if current_component \<noteq> [] then components @ [current_component] else components))"

definition matches_pattern :: "string list \<Rightarrow> matcher list \<Rightarrow> bool" where
  "matches_pattern field_path pattern = pattern_match pattern field_path 0"

text \<open>
  A message descriptor is the list of its field descriptors; a field of message type
  carries the descriptor of the nested message. \<open>_yield_field_paths\<close> is a generator,
  modelled by the list of the values it yields, in order.
\<close>

datatype field_type = TYPE_STRING | TYPE_INT32 | TYPE_INT64 | TYPE_MESSAGE

datatype field_descriptor =
  FieldDescriptor (name: string) (type: field_type) (is_repeated: bool)
    (message_type: "field_descriptor list")

function yield_field_paths :: "field_descriptor list \<Rightarrow> (string list \<times> field_descriptor) list" where
  "yield_field_paths [] = []"
| "yield_field_paths (field_desc # more_fields) =
     (([name field_desc], field_desc) #
      (if type field_desc = TYPE_MESSAGE
       then map (\<lambda>(new_path, nested_field_desc). (name field_desc # new_path, nested_field_desc))
              (yield_field_paths (message_type field_desc))
       else []))
     @ yield_field_paths more_fields"
  by pat_completeness auto
termination
  by (relation "measure (size_list size)") (auto, case_tac field_desc, auto)

definition expand_field_pattern :: "field_descriptor list \<Rightarrow> string \<Rightarrow> string list set" where
  "expand_field_pattern msg_descriptor pattern_path =
     set (map fst (filter (\<lambda>(field_path_tuple, d). matches_pattern field_path_tuple (parse_pattern pattern_path))
            (yield_field_paths msg_descriptor)))"

text \<open>The schema of the test suite (\<open>TEST_PROTO_CONTENT\<close> in test\_generate\_logic.py).\<close>

definition SubMessage :: "field_descriptor list" where
  "SubMessage =
     [FieldDescriptor ''sub_id'' TYPE_STRING False [],
      FieldDescriptor ''sub_name'' TYPE_STRING False [],
      FieldDescriptor ''sub_value'' TYPE_INT32 False []]"

definition TestMessage :: "field_descriptor list" where
  "TestMessage =
     [FieldDescriptor ''id'' TYPE_STRING False [],
      FieldDescriptor ''name'' TYPE_STRING False [],
      FieldDescriptor ''value'' TYPE_INT32 False [],
      FieldDescriptor ''sub'' TYPE_MESSAGE False SubMessage,
      FieldDescriptor ''tags'' TYPE_STRING True [],
      FieldDescriptor ''nested_subs'' TYPE_MESSAGE True SubMessage]"

subsection \<open>HashBucket index (hashtable.py)\<close>

text \<open>
  Byte strings are lists of 8-bit characters; Python compares them lexicographically by
  unsigned byte value, which is the order of \<open>Char_ord\<close> lifted by \<open>List_Lexorder\<close>.
  A key reaches the writer and the reader only through \<open>key.SerializeToString()\<close>, so
  a key is modelled by its serialized bytes.

  Two parts of \<open>HashBucketConfig\<close> are outside the embedding and are carried by the
  configuration as functions: \<open>hash_key\<close> (BLAKE3 of the key, read as a little-endian
  integer) and \<open>bucket_quotient\<close>, which maps \<open>n\<close> to the value of
  \<open>int(n / avg_bucket_size)\<close>, a floating-point computation that raises when
  \<open>avg_bucket_size\<close> is zero, and when the quotient is infinite or not a number.

  Record ids are Python integers, modelled as \<open>int\<close>. The field
  \<open>HashRecord.record_ids\<close> is an \<open>int64\<close> field, so the constructor call
  \<open>messages_pb2.HashRecord(key=..., record_ids=...)\<close> (\<open>new_HashRecord\<close>) raises
  \<open>ValueError\<close> when a record id is outside the signed 64-bit range.

  The entries of an index file are byte strings produced by protobuf serialization and read
  back by protobuf parsing. The model stores the message itself; the empty byte string
  and the empty \<open>HashBucket\<close> parse to the same message, the empty list of
  records. The trailing descriptor is the configuration.
\<close>

type_synonym bytes = string

record HashBucketConfig =
  key_proto_name :: string
  bucket_quotient :: "nat \<Rightarrow> py_error + int"
  hash_key :: "bytes \<Rightarrow> nat"

record HashRecord =
  key :: bytes
  hr_record_ids :: "int list"

type_synonym HashBucket = "HashRecord list"

record HashBucketBag =
  buckets :: "HashBucket list"
  descriptor :: HashBucketConfig

text \<open>
  \<open>HashBucketWriter._data\<close> is a \<open>defaultdict(set)\<close>. A Python dictionary keeps
  its keys in insertion order, so it is an association list; reading a missing key of a
  \<open>defaultdict\<close> gives the empty set (\<open>data_get\<close>), and storing to a key keeps
  its position or appends it (\<open>AList.update\<close>).
\<close>

type_synonym HashBucketData = "(bytes \<times> int set) list"

definition data_get :: "HashBucketData \<Rightarrow> bytes \<Rightarrow> int set" where
  "data_get data k = (case map_of data k of None \<Rightarrow> {} | Some s \<Rightarrow> s)"

definition HashBucketWriter_add :: "bytes \<Rightarrow> int list \<Rightarrow> HashBucketData \<Rightarrow> HashBucketData" where
  "HashBucketWriter_add key_bytes ids data =
     AList.update key_bytes (data_get data key_bytes \<union> set ids) data"

text \<open>
  In \<open>write\<close>, \<open>bucket_to_keys\<close> is a \<open>defaultdict(list)\<close> filled by one pass
  over the keys of \<open>_data\<close>; a bucket index that received no key is absent from it.
\<close>

definition bucket_append :: "nat \<Rightarrow> bytes \<Rightarrow> (nat \<rightharpoonup> bytes list) \<Rightarrow> (nat \<rightharpoonup> bytes list)" where
  "bucket_append b k m = m(b \<mapsto> (case m b of None \<Rightarrow> [] | Some ks \<Rightarrow> ks) @ [k])"

definition group_keys :: "HashBucketConfig \<Rightarrow> nat \<Rightarrow> bytes list \<Rightarrow> (nat \<rightharpoonup> bytes list)" where
  "group_keys cfg num_buckets ks =
     fold (\<lambda>k. bucket_append (hash_key cfg k mod num_buckets) k) ks Map.empty"

definition new_HashRecord :: "bytes \<Rightarrow> int list \<Rightarrow> py_error + HashRecord" where
  "new_HashRecord k ids =
     (if list_all int64_ok ids then Inr \<lparr>key = k, hr_record_ids = ids\<rparr> else Inl ValueError)"

definition write_bucket ::
  "HashBucketData \<Rightarrow> (nat \<rightharpoonup> bytes list) \<Rightarrow> nat \<Rightarrow> py_error + HashBucket" where
  "write_bucket data bucket_to_keys bucket_index =
     (case bucket_to_keys bucket_index of
        None \<Rightarrow> Inr []
      | Some ks \<Rightarrow>
          map_err (\<lambda>k. new_HashRecord k (sorted_list_of_set (data_get data k))) (sort ks))"

definition HashBucketWriter_write :: "HashBucketConfig \<Rightarrow> HashBucketData \<Rightarrow> py_error + HashBucketBag" where
  "HashBucketWriter_write cfg data =
     (case bucket_quotient cfg (length data) of
        Inl e \<Rightarrow> Inl e
      | Inr q \<Rightarrow>
          (let num_buckets = nat (max 1 q);
               bucket_to_keys = group_keys cfg num_buckets (map fst data)
           in case map_err (write_bucket data bucket_to_keys) [0..<num_buckets] of
                Inl e \<Rightarrow> Inl e
              | Inr bs \<Rightarrow> Inr \<lparr>buckets = bs, descriptor = cfg\<rparr>))"

text \<open>
  The reader computes \<open>num_buckets = len(bag) - 1\<close>; the file holds the buckets and one
  descriptor, so this is the number of buckets. The remainder by zero raises.
\<close>

definition HashBucketReader_lookup :: "HashBucketConfig \<Rightarrow> HashBucketBag \<Rightarrow> bytes \<Rightarrow> py_error + int list option" where
  "HashBucketReader_lookup cfg bag key_bytes =
     (let num_buckets = length (buckets bag) in
      if num_buckets = 0 then Inl ZeroDivisionError
      else
        (let bucket_index = hash_key cfg key_bytes mod num_buckets;
             hash_bucket = buckets bag ! bucket_index
         in Inr (map_option hr_record_ids (find (\<lambda>r. key r = key_bytes) hash_bucket))))"

text \<open>
  A build is a sequence of \<open>add\<close> calls on a fresh writer. \<open>added_ids adds k\<close> is
  the set of all record ids passed in calls with key \<open>k\<close>.
\<close>

definition build :: "(bytes \<times> int list) list \<Rightarrow> HashBucketData" where
  "build adds = fold (\<lambda>(k, ids). HashBucketWriter_add k ids) adds []"

definition added_ids :: "(bytes \<times> int list) list \<Rightarrow> bytes \<Rightarrow> int set" where
  "added_ids adds k = set (concat (map snd (filter (\<lambda>a. fst a = k) adds)))"

text \<open>A concrete configuration and the build of the test suite, used to instantiate theorems.\<close>

definition example_config :: HashBucketConfig where
  "example_config =
     \<lparr>key_proto_name = ''bagz_index.keys.StringKey'',
      bucket_quotient = (\<lambda>n. Inr (int (n * 10 div 9))),
      hash_key = (\<lambda>k. sum_list (map of_char k))\<rparr>"

definition example_adds :: "(bytes \<times> int list) list" where
  "example_adds =
     [(''hello'', [1, 2, 3]), (''world'', [4, 5, 6]), (''hello'', [7, 8, 9]),
      (''foo'', [10]), (''bar'', [11])]"

subsection \<open>Trigram index (trigram.py)\<close>

text \<open>
  Texts and queries are Python strings, modelled as lists of 8-bit characters, that is over
  the code points below 256, on which \<open>str.lower\<close> works character by character.
  \<open>ngram_size\<close> is a natural number: with a negative size the writer's constructor
  already raises, since \<open>len(...) ** ngram_size\<close> is then not an integer.
\<close>

record TrigramConfig =
  character_set :: string
  ngram_size :: nat
  normalize :: bool
  store_positions :: bool
  delta_encode_record_ids :: bool

definition effective_character_set :: "TrigramConfig \<Rightarrow> string" where
  "effective_character_set cfg =
     (if normalize cfg then character_set cfg @ '' '' else character_set cfg)"

text \<open>
  \<open>compiled_normalize_regex\<close> compiles \<open>"[^" + re.escape(character_set) + "]+"\<close>.
  For an empty character set the pattern is \<open>"[^]+"\<close>, an unterminated character class,
  and \<open>re.compile\<close> raises. Otherwise the escaped characters are exactly the members
  of the class, so the compiled regex matches the nonempty runs of characters outside
  \<open>character_set\<close>; it is modelled by that character set.
\<close>

definition compiled_normalize_regex :: "TrigramConfig \<Rightarrow> py_error + string" where
  "compiled_normalize_regex cfg =
     (if character_set cfg = [] then Inl RegexError else Inr (character_set cfg))"

text \<open>
  \<open>char_to_int_map\<close> is the dictionary \<open>{c: i for i, c in enumerate(...)}\<close>: a later
  occurrence of a character overwrites the value of an earlier one.
\<close>

definition char_to_int_map :: "TrigramConfig \<Rightarrow> (char \<times> nat) list" where
  "char_to_int_map cfg =
     fold (\<lambda>(i, c). AList.update c i) (enumerate 0 (effective_character_set cfg)) []"

definition py_lower_char :: "char \<Rightarrow> char" where
  "py_lower_char c =
     (let n = (of_char c :: nat) in
      if (65 \<le> n \<and> n \<le> 90) \<or> (192 \<le> n \<and> n \<le> 222 \<and> n \<noteq> 215)
      then char_of (n + 32) else c)"

definition py_lower :: "string \<Rightarrow> string" where
  "py_lower text = map py_lower_char text"

text \<open>
  \<open>compiled_regex.sub(" ", s)\<close> scans from the left; at a character outside the set it
  consumes the longest run of such characters and emits one space.
\<close>

function regex_sub :: "string \<Rightarrow> string \<Rightarrow> string" where
  "regex_sub cs [] = []"
| "regex_sub cs (c # rest) =
     (if c \<in> set cs then c # regex_sub cs rest
      else CHR '' '' # regex_sub cs (dropWhile (\<lambda>d. d \<notin> set cs) rest))"
  by pat_completeness auto
termination
  by (relation "measure (\<lambda>(cs, s). length s)")
     (auto simp: less_Suc_eq_le length_dropWhile_le)

definition normalize_text :: "string \<Rightarrow> string \<Rightarrow> string" where
  "normalize_text text compiled_regex = py_strip (regex_sub compiled_regex (py_lower text))"

text \<open>
  \<open>_ngram_to_index\<close>: the loop over the characters of the n-gram, with the early
  return of \<open>-1\<close>.
\<close>

fun ngram_to_index_loop :: "(char \<times> nat) list \<Rightarrow> int \<Rightarrow> int \<Rightarrow> string \<Rightarrow> int" where
  "ngram_to_index_loop char_map base index [] = index"
| "ngram_to_index_loop char_map base index (c # cs) =
     (case map_of char_map c of
        None \<Rightarrow> - 1
      | Some v \<Rightarrow> ngram_to_index_loop char_map base (index * base + int v) cs)"

definition ngram_to_index :: "string \<Rightarrow> (char \<times> nat) list \<Rightarrow> int" where
  "ngram_to_index ngram char_map =
     ngram_to_index_loop char_map (int (length char_map)) 0 ngram"

text \<open>
  The two writer implementations. \<open>_SimpleImpl._postings\<close> is a list of sets,
  \<open>_PositionalImpl._postings\<close> a list of pairs of parallel lists. Both index the list
  with the n-gram index; a Python list raises \<open>IndexError\<close> beyond its end. The
  positional implementation tests \<open>index != -1\<close>, the simple one \<open>index >= 0\<close>;
  the index is never below \<open>-1\<close>, so the negative indexing of Python lists does not
  arise.
\<close>

datatype WriterImpl =
    SimpleImpl "int set list"
  | PositionalImpl "(int list \<times> int list) list"

definition num_postings :: "TrigramConfig \<Rightarrow> nat" where
  "num_postings cfg = length (effective_character_set cfg) ^ ngram_size cfg"

definition TrigramWriter_init :: "TrigramConfig \<Rightarrow> WriterImpl" where
  "TrigramWriter_init cfg =
     (if store_positions cfg then PositionalImpl (replicate (num_postings cfg) ([], []))
      else SimpleImpl (replicate (num_postings cfg) {}))"

definition ngram_at :: "TrigramConfig \<Rightarrow> string \<Rightarrow> nat \<Rightarrow> string" where
  "ngram_at cfg text i = take (ngram_size cfg) (drop i text)"

definition ngram_range :: "TrigramConfig \<Rightarrow> string \<Rightarrow> nat list" where
  "ngram_range cfg text = [0..<length text + 1 - ngram_size cfg]"

definition simple_add_step ::
  "TrigramConfig \<Rightarrow> string \<Rightarrow> int \<Rightarrow> nat \<Rightarrow> int set list \<Rightarrow> py_error + int set list" where
  "simple_add_step cfg text record_id i postings =
     (let index = ngram_to_index (ngram_at cfg text i) (char_to_int_map cfg) in
      if index \<ge> 0 then
        (if nat index < length postings
         then Inr (postings[nat index := insert record_id (postings ! nat index)])
         else Inl IndexError)
      else Inr postings)"

definition positional_add_step ::
  "TrigramConfig \<Rightarrow> string \<Rightarrow> int \<Rightarrow> nat \<Rightarrow> (int list \<times> int list) list
     \<Rightarrow> py_error + (int list \<times> int list) list" where
  "positional_add_step cfg text record_id i postings =
     (let index = ngram_to_index (ngram_at cfg text i) (char_to_int_map cfg) in
      if index \<noteq> - 1 then
        (if 0 \<le> index \<and> nat index < length postings
         then Inr (postings[nat index :=
                     (fst (postings ! nat index) @ [record_id],
                      snd (postings ! nat index) @ [int i])])
         else Inl IndexError)
      else Inr postings)"

definition impl_add_text :: "TrigramConfig \<Rightarrow> string \<Rightarrow> int \<Rightarrow> WriterImpl \<Rightarrow> py_error + WriterImpl" where
  "impl_add_text cfg text record_id impl =
     (case impl of
        SimpleImpl postings \<Rightarrow>
          map_sum id SimpleImpl
            (fold_err (simple_add_step cfg text record_id) (ngram_range cfg text) postings)
      | PositionalImpl postings \<Rightarrow>
          map_sum id PositionalImpl
            (fold_err (positional_add_step cfg text record_id) (ngram_range cfg text) postings))"

definition TrigramWriter_add_text ::
  "TrigramConfig \<Rightarrow> string \<Rightarrow> int \<Rightarrow> WriterImpl \<Rightarrow> py_error + WriterImpl" where
  "TrigramWriter_add_text cfg text record_id impl =
     (if normalize cfg then
        (case compiled_normalize_regex cfg of
           Inl e \<Rightarrow> Inl e
         | Inr rx \<Rightarrow> impl_add_text cfg (normalize_text text rx) record_id impl)
      else impl_add_text cfg text record_id impl)"

text \<open>
  Writing. \<open>simple_posting\<close> and \<open>positional_posting\<close> are the messages built for
  one slot before the optional delta encoding; the constructor raises when a value does not
  fit its \<open>int64\<close> field, and \<open>zip(..., strict=True)\<close> raises when the two lists
  differ in length. \<open>_delta_encode\<close> may raise as well. The loop over the slots stops
  at the first error.

  As for the HashBucket index, the file is modelled by the messages it holds. Its last
  entry is the JSON text of the writer's configuration: \<open>to_json\<close> writes every field
  as it is, so \<open>trigram_descriptor\<close> holds the writer's configuration. The reader does
  not use it as it is, see \<open>TrigramConfig_from_json\<close> below.
\<close>

record TrigramBag =
  postings :: "PostingList list"
  trigram_descriptor :: TrigramConfig

definition simple_posting :: "int set \<Rightarrow> py_error + PostingList" where
  "simple_posting posting_set = new_PostingList (sorted_list_of_set posting_set) []"

definition zip_strict :: "'a list \<Rightarrow> 'b list \<Rightarrow> py_error + ('a \<times> 'b) list" where
  "zip_strict xs ys = (if length xs = length ys then Inr (zip xs ys) else Inl ValueError)"

definition positional_posting :: "int list \<times> int list \<Rightarrow> py_error + PostingList" where
  "positional_posting p =
     (case zip_strict (fst p) (snd p) of
        Inl e \<Rightarrow> Inl e
      | Inr tuples \<Rightarrow>
          (let posting_tuples = sort tuples in
           new_PostingList (map fst posting_tuples) (map snd posting_tuples)))"

definition maybe_delta_encode :: "TrigramConfig \<Rightarrow> PostingList \<Rightarrow> py_error + PostingList" where
  "maybe_delta_encode cfg message =
     (if delta_encode_record_ids cfg then delta_encode message else Inr message)"

definition TrigramWriter_write :: "TrigramConfig \<Rightarrow> WriterImpl \<Rightarrow> py_error + TrigramBag" where
  "TrigramWriter_write cfg impl =
     (case impl of
        SimpleImpl posting_sets \<Rightarrow>
          (case map_err (\<lambda>posting_set.
                    case simple_posting posting_set of
                      Inl e \<Rightarrow> Inl e
                    | Inr message \<Rightarrow> maybe_delta_encode cfg message)
                  posting_sets of
             Inl e \<Rightarrow> Inl e
           | Inr messages \<Rightarrow> Inr \<lparr>postings = messages, trigram_descriptor = cfg\<rparr>)
      | PositionalImpl posting_lists \<Rightarrow>
          (case map_err (\<lambda>p.
                    case positional_posting p of
                      Inl e \<Rightarrow> Inl e
                    | Inr message \<Rightarrow> maybe_delta_encode cfg message)
                  posting_lists of
             Inl e \<Rightarrow> Inl e
           | Inr messages \<Rightarrow> Inr \<lparr>postings = messages, trigram_descriptor = cfg\<rparr>))"

text \<open>A build is a sequence of \<open>add_text\<close> calls on a fresh writer.\<close>

definition trigram_build :: "TrigramConfig \<Rightarrow> (string \<times> int) list \<Rightarrow> py_error + WriterImpl" where
  "trigram_build cfg adds =
     fold_err (\<lambda>(text, record_id). TrigramWriter_add_text cfg text record_id) adds
       (TrigramWriter_init cfg)"

text \<open>
  The reader. The two matcher classes are one datatype; \<open>PositionNGramMatcher\<close>
  carries \<open>_first_position\<close> and \<open>_matches\<close>. Reading a slot beyond the posting
  lists either leaves the file or hits the descriptor, which is not a posting list; both
  are an error. \<open>_get_record_ids\<close> decodes in place, which may raise, and the search
  then works on the decoded message.
\<close>

datatype NGramMatcher =
    SimpleNGramMatcher "int set option"
  | PositionNGramMatcher bool "(int \<times> int) set"

definition matcher_add :: "nat \<Rightarrow> PostingList \<Rightarrow> NGramMatcher \<Rightarrow> py_error + NGramMatcher" where
  "matcher_add i posting_list m =
     (case m of
        SimpleNGramMatcher None \<Rightarrow>
          Inr (SimpleNGramMatcher (Some (set (record_ids posting_list))))
      | SimpleNGramMatcher (Some matches) \<Rightarrow>
          Inr (SimpleNGramMatcher (Some (matches \<inter> set (record_ids posting_list))))
      | PositionNGramMatcher first_position matches \<Rightarrow>
          (case zip_strict (record_ids posting_list) (record_offsets posting_list) of
             Inl e \<Rightarrow> Inl e
           | Inr tuples \<Rightarrow>
               (let start_positions = set (map (\<lambda>(rid, pos). (rid, pos - int i)) tuples) in
                if first_position then Inr (PositionNGramMatcher False start_positions)
                else Inr (PositionNGramMatcher False (matches \<inter> start_positions)))))"

definition no_remaining_matches :: "NGramMatcher \<Rightarrow> bool" where
  "no_remaining_matches m =
     (case m of
        SimpleNGramMatcher matches \<Rightarrow> matches \<noteq> None \<and> matches = Some {}
      | PositionNGramMatcher first_position matches \<Rightarrow> \<not> (first_position \<or> matches \<noteq> {}))"

definition matcher_record_ids :: "NGramMatcher \<Rightarrow> int list" where
  "matcher_record_ids m =
     (case m of
        SimpleNGramMatcher None \<Rightarrow> []
      | SimpleNGramMatcher (Some matches) \<Rightarrow> sorted_list_of_set matches
      | PositionNGramMatcher first_position matches \<Rightarrow> sorted_list_of_set (fst ` matches))"

definition get_record_ids :: "TrigramConfig \<Rightarrow> PostingList \<Rightarrow> py_error + PostingList" where
  "get_record_ids cfg posting_list =
     (if delta_encode_record_ids cfg then delta_decode posting_list else Inr posting_list)"

definition requires_post_filtering :: "TrigramConfig \<Rightarrow> bool" where
  "requires_post_filtering cfg = (\<not> store_positions cfg)"

definition bag_get :: "TrigramBag \<Rightarrow> int \<Rightarrow> py_error + PostingList" where
  "bag_get bag index =
     (if 0 \<le> index \<and> nat index < length (postings bag) then Inr (postings bag ! nat index)
      else Inl IndexError)"

fun search_loop ::
  "TrigramConfig \<Rightarrow> TrigramBag \<Rightarrow> string \<Rightarrow> nat list \<Rightarrow> NGramMatcher \<Rightarrow> py_error + int list" where
  "search_loop cfg bag query [] matches = Inr (matcher_record_ids matches)"
| "search_loop cfg bag query (i # rest) matches =
     (let index = ngram_to_index (ngram_at cfg query i) (char_to_int_map cfg) in
      if index \<noteq> - 1 then
        (case bag_get bag index of
           Inl e \<Rightarrow> Inl e
         | Inr message \<Rightarrow>
             (case get_record_ids cfg message of
                Inl e \<Rightarrow> Inl e
              | Inr posting_list \<Rightarrow>
                  (case matcher_add i posting_list matches of
                     Inl e \<Rightarrow> Inl e
                   | Inr matches' \<Rightarrow>
                       if no_remaining_matches matches' then Inr []
                       else search_loop cfg bag query rest matches')))
      else search_loop cfg bag query rest matches)"

definition search_normalized :: "TrigramConfig \<Rightarrow> TrigramBag \<Rightarrow> string \<Rightarrow> py_error + int list" where
  "search_normalized cfg bag query =
     (if length query < ngram_size cfg then Inr []
      else search_loop cfg bag query (ngram_range cfg query)
             (if store_positions cfg then PositionNGramMatcher True {}
              else SimpleNGramMatcher None))"

definition TrigramReader_search :: "TrigramConfig \<Rightarrow> TrigramBag \<Rightarrow> string \<Rightarrow> py_error + int list" where
  "TrigramReader_search cfg bag query =
     (if normalize cfg then
        (case compiled_normalize_regex cfg of
           Inl e \<Rightarrow> Inl e
         | Inr rx \<Rightarrow> search_normalized cfg bag (normalize_text query rx))
      else search_normalized cfg bag query)"

text \<open>
  A reader of a written index is made by \<open>core.make_reader\<close>, which parses the
  descriptor with \<open>TrigramConfig.from_json\<close>: the character set becomes
  \<open>"".join(sorted(set(character_set)))\<close>, its characters in ascending order without
  repetition, and the other fields are kept. \<open>make_reader_search bag query\<close> is
  \<open>core.make_reader(path, SupportsTextSearch).search(query)\<close> on the written file.
\<close>

definition TrigramConfig_from_json :: "TrigramConfig \<Rightarrow> TrigramConfig" where
  "TrigramConfig_from_json config_dict =
     config_dict\<lparr>character_set := sorted_list_of_set (set (character_set config_dict))\<rparr>"

definition make_reader_search :: "TrigramBag \<Rightarrow> string \<Rightarrow> py_error + int list" where
  "make_reader_search bag query =
     TrigramReader_search (TrigramConfig_from_json (trigram_descriptor bag)) bag query"

text \<open>
  Notions used to state what a build contains. \<open>norm_text\<close> is the text as the writer
  indexes it and as the reader searches it (when the regex compiles).
  \<open>slot_entries cfg text rid k\<close> lists the pairs \<open>(rid, i)\<close> for the offsets \<open>i\<close> at
  which the n-gram of \<open>text\<close> has index \<open>k\<close>; \<open>build_entries\<close> collects them over
  a sequence of \<open>add_text\<close> calls. \<open>trigram_build_and_write\<close> is a whole build
  followed by \<open>write\<close>.
\<close>

definition norm_text :: "TrigramConfig \<Rightarrow> string \<Rightarrow> string" where
  "norm_text cfg text =
     (if normalize cfg then normalize_text text (character_set cfg) else text)"

definition slot_entries :: "TrigramConfig \<Rightarrow> string \<Rightarrow> int \<Rightarrow> nat \<Rightarrow> (int \<times> int) list" where
  "slot_entries cfg text rid k =
     map (\<lambda>i. (rid, int i))
       (filter (\<lambda>i. ngram_to_index (ngram_at cfg text i) (char_to_int_map cfg) = int k)
          (ngram_range cfg text))"

definition build_entries :: "TrigramConfig \<Rightarrow> (string \<times> int) list \<Rightarrow> nat \<Rightarrow> (int \<times> int) list" where
  "build_entries cfg adds k =
     concat (map (\<lambda>(text, rid). slot_entries cfg (norm_text cfg text) rid k) adds)"

definition trigram_build_and_write ::
  "TrigramConfig \<Rightarrow> (string \<times> int) list \<Rightarrow> py_error + TrigramBag" where
  "trigram_build_and_write cfg adds =
     (case trigram_build cfg adds of
        Inl e \<Rightarrow> Inl e
      | Inr impl \<Rightarrow> TrigramWriter_write cfg impl)"

text \<open>A small positional configuration over the alphabet \<open>ab\<close> with 2-grams, used to instantiate theorems.\<close>

definition example_trigram_config :: TrigramConfig where
  "example_trigram_config =
     \<lparr>character_set = ''ab'', ngram_size = 2, normalize = False,
      store_positions = True, delta_encode_record_ids = False\<rparr>"

text \<open>
  The normalization as the specification words it, independent of the regex scan: split
  the text into its maximal runs of characters that are all inside or all outside the
  character set, replace each outside run by one space, and strip spaces at both ends.
\<close>

function runs :: "('a \<Rightarrow> bool) \<Rightarrow> 'a list \<Rightarrow> 'a list list" where
  "runs P [] = []"
| "runs P (x # xs) =
     (x # takeWhile (\<lambda>y. P y = P x) xs) # runs P (dropWhile (\<lambda>y. P y = P x) xs)"
  by pat_completeness auto
termination
  by (relation "measure (\<lambda>(P, xs). length xs)")
     (auto simp: less_Suc_eq_le length_dropWhile_le)

definition spec_replace_runs :: "string \<Rightarrow> string \<Rightarrow> string" where
  "spec_replace_runs cs s =
     concat (map (\<lambda>r. if hd r \<in> set cs then r else '' '') (runs (\<lambda>c. c \<in> set cs) s))"

definition spec_strip_spaces :: "string \<Rightarrow> string" where
  "spec_strip_spaces s =
     rev (dropWhile (\<lambda>c. c = CHR '' '') (rev (dropWhile (\<lambda>c. c = CHR '' '') s)))"

definition spec_normalize :: "string \<Rightarrow> string \<Rightarrow> string" where
  "spec_normalize cs text = spec_strip_spaces (spec_replace_runs cs (py_lower text))"

text \<open>
  What a search is expected to return. \<open>is_substring q t\<close> holds when \<open>q\<close> occurs in
  \<open>t\<close> as a contiguous substring; \<open>matching_record_ids\<close> is the set of record ids of
  the \<open>add_text\<close> calls whose indexed text contains the query as searched.
\<close>

definition is_substring :: "'a list \<Rightarrow> 'a list \<Rightarrow> bool" where
  "is_substring q t =
     (length q \<le> length t \<and>
      list_ex (\<lambda>p. take (length q) (drop p t) = q) [0..<length t - length q + 1])"

definition matching_record_ids :: "TrigramConfig \<Rightarrow> (string \<times> int) list \<Rightarrow> string \<Rightarrow> int set" where
  "matching_record_ids cfg adds query =
     set (map snd (filter (\<lambda>(text, rid). is_substring (norm_text cfg query) (norm_text cfg text)) adds))"

text \<open>
  \<open>shifted_entries cfg adds query i\<close> is the set of start positions the positional matcher
  derives from the \<open>i\<close>-th n-gram of the query: the entries of its slot, each offset
  moved back by \<open>i\<close>.
\<close>

definition shifted_entries ::
  "TrigramConfig \<Rightarrow> (string \<times> int) list \<Rightarrow> string \<Rightarrow> nat \<Rightarrow> (int \<times> int) set" where
  "shifted_entries cfg adds query i =
     (\<lambda>(rid, pos). (rid, pos - int i)) `
       set (build_entries cfg adds
              (nat (ngram_to_index (ngram_at cfg query i) (char_to_int_map cfg))))"

text \<open>The positional configuration and the documents of the test suite (test\_trigram.py).\<close>

definition positional_trigram_config :: TrigramConfig where
  "positional_trigram_config =
     \<lparr>character_set = ''abcdefghijklmnopqrstuvwxyz'', ngram_size = 3, normalize = True,
      store_positions = True, delta_encode_record_ids = False\<rparr>"

definition test_docs :: "(string \<times> int) list" where
  "test_docs =
     [(''hello world'', 0), (''world of wonders'', 1), (''hello there'', 2),
      (''a whole new world'', 3), (''ear sea archers'', 4), (''search and rescue'', 5)]"

subsection \<open>Merging and the sharded build driver (core.py, generate\_logic.py)\<close>

text \<open>
  Index files live in a file system, a map from paths to the list of entries of the file.
  The shard files of a build are created in a temporary directory; \<open>Shard k\<close> is the path
  \<open>temp_dir / "<stem>-<k as 5 digits><suffix>"\<close> of shard \<open>k\<close> (the file name is
  determined by \<open>k\<close> and differs for different \<open>k\<close>), every other path is a \<open>File\<close>.
  \<open>tempfile.TemporaryDirectory()\<close> makes a new, empty directory.

  The parts the driver and \<open>merge_indices\<close> only call are parameters, collected in an
  environment: the writer made by the configuration (\<open>_make_writer\<close>, which raises when
  the configuration does not support the protocol), its \<open>add\<close> and \<open>write\<close>, the
  parser of the descriptor (\<open>config_from_json\<close>), and the merger the configuration
  makes (\<open>make_merger\<close>), which reads and writes files.
\<close>

datatype path = File string | Shard nat

record 'e world =
  files :: "path \<rightharpoonup> 'e list"
  temp_dir_exists :: bool

record ('r, 'w, 'e, 'c) env =
  env_make_writer :: "py_error + 'w"
  env_add :: "'r \<Rightarrow> 'w \<Rightarrow> py_error + 'w"
  env_write :: "'w \<Rightarrow> py_error + 'e list"
  env_config_from_json :: "'e \<Rightarrow> py_error + 'c"
  env_merger :: "'c \<Rightarrow> path list \<Rightarrow> path \<Rightarrow> 'e world \<Rightarrow> py_error option \<times> 'e world"

text \<open>
  \<open>_config_from_bagz\<close> opens the file, which fails when it does not exist, and parses
  its last entry; an empty file has no last entry.
\<close>

definition config_from_bagz :: "('r, 'w, 'e, 'c) env \<Rightarrow> 'e world \<Rightarrow> path \<Rightarrow> py_error + 'c" where
  "config_from_bagz env w bagz_path =
     (case files w bagz_path of
        None \<Rightarrow> Inl IOError
      | Some entries \<Rightarrow>
          if entries = [] then Inl IndexError else env_config_from_json env (last entries))"

text \<open>
  \<open>merge_indices\<close> returns the error it raises, if any, and the file system it leaves
  behind.
\<close>

definition merge_indices ::
  "('r, 'w, 'e, 'c) env \<Rightarrow> path list \<Rightarrow> path \<Rightarrow> 'e world \<Rightarrow> py_error option \<times> 'e world" where
  "merge_indices env input_bagz_paths output_bagz_path w =
     (if input_bagz_paths = [] then (Some ValueError, w)
      else
        (case map_err (config_from_bagz env w) input_bagz_paths of
           Inl e \<Rightarrow> (Some e, w)
         | Inr configs \<Rightarrow>
             if \<not> list_all (\<lambda>config. config = hd configs) (tl configs)
             then (Some ValueError, w)
             else env_merger env (hd configs) input_bagz_paths output_bagz_path w))"

text \<open>
  The state of a \<open>ShardedIndexBuilder\<close>. \<open>has_temp_dir\<close> says whether
  \<open>self.temp_dir\<close> is set. Every method returns the error it raises, if any, together
  with the state it leaves behind.
\<close>

record 'w builder =
  output_bagz_path :: path
  shard_limit :: int
  has_temp_dir :: bool
  current_writer :: "'w option"
  current_shard_record_count :: int
  shard_paths :: "path list"
  shard_id :: nat

definition init_builder :: "path \<Rightarrow> int \<Rightarrow> 'w builder" where
  "init_builder output limit =
     \<lparr>output_bagz_path = output, shard_limit = limit, has_temp_dir = False,
      current_writer = None, current_shard_record_count = 0, shard_paths = [], shard_id = 0\<rparr>"

definition new_shard_writer ::
  "('r, 'w, 'e, 'c) env \<Rightarrow> 'w builder \<Rightarrow> (py_error + 'w) \<times> 'w builder" where
  "new_shard_writer env b =
     (if \<not> has_temp_dir b then (Inl RuntimeError, b)
      else
        (let b1 = b\<lparr>shard_paths := shard_paths b @ [Shard (shard_id b)]\<rparr> in
         case env_make_writer env of
           Inl e \<Rightarrow> (Inl e, b1)
         | Inr writer \<Rightarrow>
             (Inr writer, b1\<lparr>current_shard_record_count := 0, shard_id := shard_id b + 1\<rparr>)))"

text \<open>\<open>__enter__\<close> calls \<open>_new_shard_writer\<close> and drops the writer it returns.\<close>

definition builder_enter ::
  "('r, 'w, 'e, 'c) env \<Rightarrow> 'w builder \<Rightarrow> 'e world \<Rightarrow> py_error option \<times> 'w builder \<times> 'e world" where
  "builder_enter env b w =
     (let w1 = w\<lparr>files := (\<lambda>p. case p of Shard k \<Rightarrow> None | File fname \<Rightarrow> files w p),
                 temp_dir_exists := True\<rparr>
      in case new_shard_writer env (b\<lparr>has_temp_dir := True\<rparr>) of
           (Inl e, b1) \<Rightarrow> (Some e, b1, w1)
         | (Inr writer, b1) \<Rightarrow> (None, b1, w1))"

definition get_current_writer ::
  "('r, 'w, 'e, 'c) env \<Rightarrow> 'w builder \<Rightarrow> (py_error + 'w) \<times> 'w builder" where
  "get_current_writer env b =
     (case current_writer b of
        None \<Rightarrow>
          (case new_shard_writer env b of
             (Inl e, b1) \<Rightarrow> (Inl e, b1)
           | (Inr writer, b1) \<Rightarrow> (Inr writer, b1\<lparr>current_writer := Some writer\<rparr>))
      | Some writer \<Rightarrow> (Inr writer, b))"

definition write_current_shard ::
  "('r, 'w, 'e, 'c) env \<Rightarrow> 'w builder \<Rightarrow> 'e world \<Rightarrow> py_error option \<times> 'w builder \<times> 'e world" where
  "write_current_shard env b w =
     (case current_writer b of
        None \<Rightarrow> (None, b, w)
      | Some writer \<Rightarrow>
          if shard_paths b = [] then (Some IndexError, b, w)
          else
            (case env_write env writer of
               Inl e \<Rightarrow> (Some e, b, w)
             | Inr entries \<Rightarrow>
                 (None, b\<lparr>current_writer := None\<rparr>,
                  w\<lparr>files := (files w)(last (shard_paths b) \<mapsto> entries)\<rparr>)))"

definition record_added ::
  "('r, 'w, 'e, 'c) env \<Rightarrow> 'w builder \<Rightarrow> 'e world \<Rightarrow> py_error option \<times> 'w builder \<times> 'e world" where
  "record_added env b w =
     (let b1 = b\<lparr>current_shard_record_count := current_shard_record_count b + 1\<rparr> in
      if current_shard_record_count b1 \<ge> shard_limit b1 then write_current_shard env b1 w
      else (None, b1, w))"

definition add_record ::
  "('r, 'w, 'e, 'c) env \<Rightarrow> 'r \<Rightarrow> 'w builder \<Rightarrow> 'e world \<Rightarrow> py_error option \<times> 'w builder \<times> 'e world" where
  "add_record env r b w =
     (case get_current_writer env b of
        (Inl e, b1) \<Rightarrow> (Some e, b1, w)
      | (Inr writer, b1) \<Rightarrow>
          (case env_add env r writer of
             Inl e \<Rightarrow> (Some e, b1, w)
           | Inr writer' \<Rightarrow> record_added env (b1\<lparr>current_writer := Some writer'\<rparr>) w))"

text \<open>
  \<open>__exit__\<close>: write the last shard, merge, and only then close the cleanup stack, which
  deletes the temporary directory with the shard files in it.
\<close>

definition builder_exit ::
  "('r, 'w, 'e, 'c) env \<Rightarrow> 'w builder \<Rightarrow> 'e world \<Rightarrow> py_error option \<times> 'w builder \<times> 'e world" where
  "builder_exit env b w =
     (case write_current_shard env b w of
        (Some e, b1, w1) \<Rightarrow> (Some e, b1, w1)
      | (None, b1, w1) \<Rightarrow>
          (case (if has_temp_dir b1 \<and> shard_paths b1 \<noteq> []
                 then merge_indices env (shard_paths b1) (output_bagz_path b1) w1
                 else (None, w1)) of
             (Some e, w2) \<Rightarrow> (Some e, b1, w2)
           | (None, w2) \<Rightarrow>
               (None, b1,
                w2\<lparr>files := (\<lambda>p. case p of Shard k \<Rightarrow> None | File fname \<Rightarrow> files w2 p),
                   temp_dir_exists := False\<rparr>)))"

fun add_records ::
  "('r, 'w, 'e, 'c) env \<Rightarrow> 'r list \<Rightarrow> 'w builder \<Rightarrow> 'e world \<Rightarrow> py_error option \<times> 'w builder \<times> 'e world" where
  "add_records env [] b w = (None, b, w)"
| "add_records env (r # rs) b w =
     (case add_record env r b w of
        (Some e, b1, w1) \<Rightarrow> (Some e, b1, w1)
      | (None, b1, w1) \<Rightarrow> add_records env rs b1 w1)"

text \<open>
  A whole build: the builder used as a context manager around a sequence of
  \<open>add_record\<close> calls. When \<open>__enter__\<close> raises, the body and \<open>__exit__\<close> do not
  run; when the body raises, \<open>__exit__\<close> still runs, and its own error, if any, is the
  one that propagates.
\<close>

definition sharded_build ::
  "('r, 'w, 'e, 'c) env \<Rightarrow> path \<Rightarrow> int \<Rightarrow> 'r list \<Rightarrow> 'e world \<Rightarrow> py_error option \<times> 'e world" where
  "sharded_build env output limit records w =
     (case builder_enter env (init_builder output limit) w of
        (Some e, b1, w1) \<Rightarrow> (Some e, w1)
      | (None, b1, w1) \<Rightarrow>
          (case add_records env records b1 w1 of
             (body_error, b2, w2) \<Rightarrow>
               (case builder_exit env b2 w2 of
                  (Some e, b3, w3) \<Rightarrow> (Some e, w3)
                | (None, b3, w3) \<Rightarrow> (body_error, w3))))"

text \<open>
  What stays true of a builder between \<open>__enter__\<close> and \<open>__exit__\<close>: shard 0 is the
  first registered path and has no file, and the current writer, if any, belongs to a later
  shard.
\<close>

definition builder_inv :: "'e world \<Rightarrow> 'w builder \<Rightarrow> 'e world \<Rightarrow> bool" where
  "builder_inv w0 b w =
     (has_temp_dir b \<and> shard_paths b \<noteq> [] \<and> hd (shard_paths b) = Shard 0 \<and>
      1 \<le> shard_id b \<and> files w (Shard 0) = None \<and> temp_dir_exists w \<and>
      (current_writer b \<noteq> None \<longrightarrow> last (shard_paths b) \<noteq> Shard 0) \<and>
      list_all (\<lambda>p. case p of Shard k \<Rightarrow> True | File fname \<Rightarrow> False) (shard_paths b) \<and>
      (\<forall>fname. files w (File fname) = files w0 (File fname)))"

text \<open>
  The HashBucket instance of the environment: records are \<open>(key, record_ids)\<close> pairs, the
  writer is the dictionary of \<open>HashBucketWriter\<close>, and a written file is the list of its
  buckets followed by the descriptor. The merger stays a parameter.
\<close>

datatype hashbucket_entry = BucketEntry HashBucket | DescriptorEntry HashBucketConfig

definition hashbucket_env ::
  "HashBucketConfig \<Rightarrow>
   (HashBucketConfig \<Rightarrow> path list \<Rightarrow> path \<Rightarrow> hashbucket_entry world
      \<Rightarrow> py_error option \<times> hashbucket_entry world) \<Rightarrow>
   (bytes \<times> int list, HashBucketData, hashbucket_entry, HashBucketConfig) env" where
  "hashbucket_env cfg merger =
     \<lparr>env_make_writer = Inr [],
      env_add = (\<lambda>r data. Inr (HashBucketWriter_add (fst r) (snd r) data)),
      env_write = (\<lambda>data. map_sum id
                      (\<lambda>bag. map BucketEntry (buckets bag) @ [DescriptorEntry (descriptor bag)])
                      (HashBucketWriter_write cfg data)),
      env_config_from_json = (\<lambda>e. case e of DescriptorEntry c \<Rightarrow> Inr c | BucketEntry b \<Rightarrow> Inl ValueError),
      env_merger = merger\<rparr>"

text \<open>
  A small environment and file system used to instantiate theorems: descriptors are
  numbers, and the merger writes the shared descriptor to the output.
\<close>

definition example_env :: "(unit, unit, nat, nat) env" where
  "example_env =
     \<lparr>env_make_writer = Inr (),
      env_add = (\<lambda>r writer. Inr writer),
      env_write = (\<lambda>writer. Inr [0]),
      env_config_from_json = (\<lambda>e. Inr e),
      env_merger = (\<lambda>c input_paths output_path w.
                      (None, w\<lparr>files := (files w)(output_path \<mapsto> [c])\<rparr>))\<rparr>"

definition example_world :: "nat world" where
  "example_world =
     \<lparr>files = [File ''a'' \<mapsto> [1, 7], File ''b'' \<mapsto> [2, 7], File ''c'' \<mapsto> [9]],
      temp_dir_exists = False\<rparr>"

section \<open>Theorems\<close>

subsection \<open>Loops that stop at the first error\<close>

lemma fold_err_append:
  "fold_err f (xs @ ys) s =
     (case fold_err f xs s of Inl e \<Rightarrow> Inl e | Inr s' \<Rightarrow> fold_err f ys s')"
  by (induction xs arbitrary: s) (auto split: sum.splits)

lemma map_err_Inr_iff:
  "(map_err f xs = Inr ys) =
     (length ys = length xs \<and> (\<forall>i<length xs. f (xs ! i) = Inr (ys ! i)))"
proof (induction xs arbitrary: ys)
  case Nil
  then show ?case by auto
next
  case (Cons x xs)
  show ?case
  proof (cases ys)
    case Nil
    then show ?thesis by (auto split: sum.splits)
  next
    case (Cons y ys')
    then show ?thesis
      using Cons.IH[of ys'] by (auto split: sum.splits simp: nth_Cons split: nat.splits)
  qed
qed

lemma map_err_first_error:
  "xs \<noteq> [] \<Longrightarrow> f (hd xs) = Inl e \<Longrightarrow> map_err f xs = Inl e"
  by (cases xs) auto

lemma map_err_all:
  "(\<And>x. x \<in> set xs \<Longrightarrow> f x = Inr (g x)) \<Longrightarrow> map_err f xs = Inr (map g xs)"
  by (induction xs) auto

lemma map_err_some_error:
  "(\<And>x. x \<in> set xs \<Longrightarrow> f x = Inr (g x) \<or> f x = Inl e) \<Longrightarrow>
   \<exists>x\<in>set xs. f x = Inl e \<Longrightarrow> map_err f xs = Inl e"
proof (induction xs)
  case Nil
  then show ?case by simp
next
  case (Cons x xs)
  show ?case
  proof (cases "f x")
    case (Inl a)
    with Cons.prems(1)[of x] show ?thesis by simp
  next
    case (Inr y)
    with Cons.prems(2) have "\<exists>x\<in>set xs. f x = Inl e" by auto
    with Cons.IH Cons.prems(1) have "map_err f xs = Inl e" by simp
    with Inr show ?thesis by simp
  qed
qed

lemma map_err_cases:
  "(\<And>x. x \<in> set xs \<Longrightarrow> f x = (if ok x then Inr (g x) else Inl e)) \<Longrightarrow>
   map_err f xs = (if \<forall>x\<in>set xs. ok x then Inr (map g xs) else Inl e)"
proof (cases "\<forall>x\<in>set xs. ok x")
  case True
  assume "\<And>x. x \<in> set xs \<Longrightarrow> f x = (if ok x then Inr (g x) else Inl e)"
  with True have "map_err f xs = Inr (map g xs)" by (intro map_err_all) simp
  with True show ?thesis by simp
next
  case False
  assume a: "\<And>x. x \<in> set xs \<Longrightarrow> f x = (if ok x then Inr (g x) else Inl e)"
  have "map_err f xs = Inl e"
  proof (rule map_err_some_error[where g = g])
    show "f x = Inr (g x) \<or> f x = Inl e" if "x \<in> set xs" for x using a[OF that] by simp
    from False obtain x where "x \<in> set xs" "\<not> ok x" by blast
    with a[of x] show "\<exists>x\<in>set xs. f x = Inl e" by auto
  qed
  with False show ?thesis by simp
qed

lemma map_err_cong:
  "(\<And>x. x \<in> set xs \<Longrightarrow> f x = g x) \<Longrightarrow> map_err f xs = map_err g xs"
proof (induction xs)
  case Nil
  then show ?case by simp
next
  case (Cons x xs)
  from Cons.prems have "f x = g x" by simp
  moreover from Cons have "map_err f xs = map_err g xs" by simp
  ultimately show ?case by (simp split: sum.split)
qed

lemma map_err_map: "map_err f (map h xs) = map_err (\<lambda>x. f (h x)) xs"
proof (induction xs)
  case Nil
  then show ?case by simp
next
  case (Cons x xs)
  then have "map_err f (map h xs) = map_err (\<lambda>x. f (h x)) xs" .
  then show ?case by (simp split: sum.split)
qed

lemma map_err_succeeds:
  "(\<And>x. x \<in> set xs \<Longrightarrow> \<exists>y. f x = Inr y) \<Longrightarrow> \<exists>ys. map_err f xs = Inr ys"
proof (induction xs)
  case Nil
  then show ?case by simp
next
  case (Cons x xs)
  from Cons.prems[of x] obtain y where "f x = Inr y" by auto
  moreover from Cons obtain ys where "map_err f xs = Inr ys" by auto
  ultimately show ?case by simp
qed

subsection \<open>Delta encoding\<close>

lemma encode_loop_result:
  "n \<le> length ids \<Longrightarrow> 0 < n \<Longrightarrow>
   fold_err delta_encode_step [1..<n] (ids, ids ! 0) = Inr (xs, l) \<Longrightarrow>
   length xs = length ids \<and> l = ids ! (n - 1) \<and>
   (\<forall>j<length ids. xs ! j = (if 0 < j \<and> j < n then ids ! j - ids ! (j - 1) else ids ! j)) \<and>
   (\<forall>j. 0 < j \<and> j < n \<longrightarrow> int64_ok (ids ! j - ids ! (j - 1)))"
proof (induction n arbitrary: xs l)
  case 0
  then show ?case by simp
next
  case (Suc n)
  show ?case
  proof (cases "n = 0")
    case True
    with Suc.prems show ?thesis by auto
  next
    case False
    then have u: "[1..<Suc n] = [1..<n] @ [n]" by simp
    from Suc.prems(3) obtain ys k where
      f: "fold_err delta_encode_step [1..<n] (ids, ids ! 0) = Inr (ys, k)" and
      r: "delta_encode_step n (ys, k) = Inr (xs, l)"
      unfolding u fold_err_append by (auto split: sum.splits)
    from Suc.IH[OF _ _ f] Suc.prems False
    have ih: "length ys = length ids" "k = ids ! (n - 1)"
      "\<forall>j<length ids. ys ! j = (if 0 < j \<and> j < n then ids ! j - ids ! (j - 1) else ids ! j)"
      "\<forall>j. 0 < j \<and> j < n \<longrightarrow> int64_ok (ids ! j - ids ! (j - 1))"
      by auto
    from Suc.prems have nl: "n < length ids" by simp
    from ih nl have yn: "ys ! n = ids ! n" by simp
    from r yn ih(2) have ok: "int64_ok (ids ! n - ids ! (n - 1))"
      and xs: "xs = ys[n := ids ! n - ids ! (n - 1)]" and l: "l = ids ! n"
      by (auto simp: delta_encode_step_def split: if_splits)
    have "\<forall>j. 0 < j \<and> j < Suc n \<longrightarrow> int64_ok (ids ! j - ids ! (j - 1))"
      using ih(4) ok by (auto simp: less_Suc_eq)
    moreover have "\<forall>j<length ids. xs ! j =
        (if 0 < j \<and> j < Suc n then ids ! j - ids ! (j - 1) else ids ! j)"
      using ih(1) ih(3) nl False unfolding xs by (auto simp: nth_list_update less_Suc_eq)
    ultimately show ?thesis using ih(1) l xs by simp
  qed
qed

lemma encode_loop_succeeds:
  "n \<le> length ids \<Longrightarrow> 0 < n \<Longrightarrow>
   \<forall>j. 0 < j \<and> j < n \<longrightarrow> int64_ok (ids ! j - ids ! (j - 1)) \<Longrightarrow>
   \<exists>xs l. fold_err delta_encode_step [1..<n] (ids, ids ! 0) = Inr (xs, l)"
proof (induction n)
  case 0
  then show ?case by simp
next
  case (Suc n)
  show ?case
  proof (cases "n = 0")
    case True
    then show ?thesis by simp
  next
    case False
    then have u: "[1..<Suc n] = [1..<n] @ [n]" by simp
    from Suc.prems have nl: "n < length ids" by simp
    from Suc.IH Suc.prems False obtain ys k where
      f: "fold_err delta_encode_step [1..<n] (ids, ids ! 0) = Inr (ys, k)" by auto
    from encode_loop_result[OF _ _ f] nl False
    have "ys ! n = ids ! n" "k = ids ! (n - 1)" by auto
    moreover from Suc.prems(3) False have "int64_ok (ids ! n - ids ! (n - 1))" by simp
    ultimately show ?thesis
      unfolding u fold_err_append f by (simp add: delta_encode_step_def)
  qed
qed

lemma decode_loop_closed:
  "n \<le> length ds \<Longrightarrow>
   \<forall>j. 0 < j \<and> j < n \<longrightarrow> int64_ok (sum_list (take (Suc j) ds)) \<Longrightarrow>
   \<exists>xs. fold_err delta_decode_step [1..<n] ds = Inr xs \<and> length xs = length ds \<and>
     (\<forall>j<length ds. xs ! j = (if j < n then sum_list (take (Suc j) ds) else ds ! j))"
proof (induction n)
  case 0
  then show ?case by simp
next
  case (Suc n)
  show ?case
  proof (cases "n = 0")
    case True
    then show ?thesis by (auto simp: take_Suc_conv_app_nth)
  next
    case False
    then have u: "[1..<Suc n] = [1..<n] @ [n]" by simp
    from Suc.prems have nl: "n < length ds" by simp
    from Suc.IH Suc.prems obtain ys where
      f: "fold_err delta_decode_step [1..<n] ds = Inr ys" and
      ih: "length ys = length ds"
      "\<forall>j<length ds. ys ! j = (if j < n then sum_list (take (Suc j) ds) else ds ! j)"
      by auto
    have s: "sum_list (take (Suc n) ds) = sum_list (take n ds) + ds ! n"
      using nl by (simp add: take_Suc_conv_app_nth)
    from False nl ih have y: "ys ! n = ds ! n" "ys ! (n - 1) = sum_list (take n ds)"
      by auto
    from Suc.prems(2) False have "int64_ok (sum_list (take (Suc n) ds))" by simp
    with y s have st: "delta_decode_step n ys = Inr (ys[n := sum_list (take (Suc n) ds)])"
      by (simp add: delta_decode_step_def add.commute)
    have "\<forall>j<length ds. ys[n := sum_list (take (Suc n) ds)] ! j =
        (if j < Suc n then sum_list (take (Suc j) ds) else ds ! j)"
      using ih nl by (auto simp: nth_list_update less_Suc_eq)
    with st ih(1) show ?thesis
      unfolding u fold_err_append f by simp
  qed
qed

lemma sum_take_deltas:
  "length es = length (ids :: int list) \<Longrightarrow>
   \<forall>j<length ids. es ! j = (if 0 < j then ids ! j - ids ! (j - 1) else ids ! j) \<Longrightarrow>
   j < length ids \<Longrightarrow> sum_list (take (Suc j) es) = ids ! j"
proof (induction j)
  case 0
  then show ?case by (simp add: take_Suc_conv_app_nth)
next
  case (Suc j)
  have a: "sum_list (take (Suc (Suc j)) es) = sum_list (take (Suc j) es) + es ! Suc j"
    using Suc.prems(1) Suc.prems(3) by (simp add: take_Suc_conv_app_nth[of "Suc j"])
  from Suc.prems(3) have "j < length ids" by simp
  then have b: "sum_list (take (Suc j) es) = ids ! j"
    by (rule Suc.IH[OF Suc.prems(1) Suc.prems(2)])
  from Suc.prems have c: "es ! Suc j = ids ! Suc j - ids ! j" by simp
  from a b c show ?case by linarith
qed

lemma delta_encode_result:
  assumes "delta_encode pl = Inr e"
  shows "record_offsets e = record_offsets pl"
    and "length (record_ids e) = length (record_ids pl)"
    and "\<forall>j<length (record_ids pl). record_ids e ! j =
           (if 0 < j then record_ids pl ! j - record_ids pl ! (j - 1) else record_ids pl ! j)"
proof -
  let ?ids = "record_ids pl"
  have "record_offsets e = record_offsets pl \<and> length (record_ids e) = length ?ids \<and>
        (\<forall>j<length ?ids. record_ids e ! j = (if 0 < j then ?ids ! j - ?ids ! (j - 1) else ?ids ! j))"
  proof (cases "?ids = []")
    case True
    with assms show ?thesis by (simp add: delta_encode_def)
  next
    case False
    with assms obtain xs l where
      f: "fold_err delta_encode_step [1..<length ?ids] (?ids, ?ids ! 0) = Inr (xs, l)"
      and e: "e = pl\<lparr>record_ids := xs\<rparr>"
      by (auto simp: delta_encode_def split: sum.splits)
    from False have "0 < length ?ids" by simp
    from encode_loop_result[OF le_refl this f] e show ?thesis by auto
  qed
  then show "record_offsets e = record_offsets pl"
    and "length (record_ids e) = length (record_ids pl)"
    and "\<forall>j<length (record_ids pl). record_ids e ! j =
           (if 0 < j then record_ids pl ! j - record_ids pl ! (j - 1) else record_ids pl ! j)"
    by auto
qed

lemma delta_decode_encoded:
  assumes "delta_encode pl = Inr e" "list_all int64_ok (record_ids pl)"
  shows "delta_decode e = Inr pl"
proof (cases "record_ids pl = []")
  case True
  with assms show ?thesis by (auto simp: delta_encode_def delta_decode_def)
next
  case False
  let ?ids = "record_ids pl" and ?es = "record_ids e"
  note r = delta_encode_result[OF assms(1)]
  have s: "j < length ?ids \<Longrightarrow> sum_list (take (Suc j) ?es) = ?ids ! j" for j
    using sum_take_deltas[OF r(2) r(3)] .
  have ok: "\<forall>j. 0 < j \<and> j < length ?es \<longrightarrow> int64_ok (sum_list (take (Suc j) ?es))"
    using s r(2) assms(2) by (auto simp: list_all_length)
  from decode_loop_closed[OF le_refl ok] obtain xs where
    f: "fold_err delta_decode_step [1..<length ?es] ?es = Inr xs" and
    l: "length xs = length ?es" and
    c: "\<forall>j<length ?es. xs ! j = sum_list (take (Suc j) ?es)"
    by auto
  have "xs = ?ids"
    using l c r(2) s by (intro nth_equalityI) auto
  moreover from False r(2) have "?es \<noteq> []" by auto
  moreover have "e\<lparr>record_ids := ?ids\<rparr> = pl" using r(1) by simp
  ultimately show ?thesis using f by (simp add: delta_decode_def)
qed

lemma delta_encode_succeeds:
  assumes "delta_representable (record_ids pl)"
  shows "\<exists>e. delta_encode pl = Inr e"
proof (cases "record_ids pl = []")
  case True
  then show ?thesis by (simp add: delta_encode_def)
next
  case False
  let ?ids = "record_ids pl"
  have d: "\<forall>j. 0 < j \<and> j < length ?ids \<longrightarrow> int64_ok (?ids ! j - ?ids ! (j - 1))"
  proof (intro allI impI)
    fix j assume j: "0 < j \<and> j < length ?ids"
    then have jl: "j - 1 < length (zip ?ids (tl ?ids))" by auto
    from assms have "\<forall>n<length (zip ?ids (tl ?ids)).
        case zip ?ids (tl ?ids) ! n of (a, b) \<Rightarrow> int64_ok (b - a)"
      by (simp add: delta_representable_def list_all_length)
    from this[rule_format, OF jl]
    have c: "case zip ?ids (tl ?ids) ! (j - 1) of (a, b) \<Rightarrow> int64_ok (b - a)" .
    from j have l1: "j - 1 < length ?ids" and l2: "j - 1 < length (tl ?ids)"
      and sj: "Suc (j - 1) = j" by auto
    have "zip ?ids (tl ?ids) ! (j - 1) = (?ids ! (j - 1), ?ids ! j)"
      using nth_zip[OF l1 l2] nth_tl[OF l2] sj by simp
    with c show "int64_ok (?ids ! j - ?ids ! (j - 1))" by simp
  qed
  from False have "0 < length ?ids" by simp
  from encode_loop_succeeds[OF le_refl this d] False show ?thesis
    by (auto simp: delta_encode_def)
qed

lemma ascending_nonnegative_representable:
  assumes "sorted ids" "list_all int64_ok ids" "\<forall>x\<in>set ids. 0 \<le> x"
  shows "delta_representable ids"
proof -
  have "int64_ok (b - a)" if "(a, b) \<in> set (zip ids (tl ids))" for a b
  proof -
    from that obtain i where i: "i < length (zip ids (tl ids))" "zip ids (tl ids) ! i = (a, b)"
      by (auto simp: in_set_conv_nth)
    then have e: "a = ids ! i" "b = ids ! Suc i" "Suc i < length ids"
      by (auto simp: nth_tl)
    then have a: "a \<in> set ids" and b: "b \<in> set ids" by auto
    from e assms(1) have "a \<le> b" by (simp add: sorted_iff_nth_mono)
    moreover from assms(2) a b have "int64_ok a" "int64_ok b" by (auto simp: list_all_iff)
    moreover from assms(3) a have "0 \<le> a" by blast
    ultimately show ?thesis by (simp add: int64_ok_def)
  qed
  with assms(2) show ?thesis by (auto simp: delta_representable_def list_all_iff)
qed

text \<open>
  Claim C6 as stated fails: the list \<open>[-2^63, 2^63 - 1]\<close> is ascending and both elements
  are \<open>int64\<close> values, but the difference \<open>2^64 - 1\<close> does not fit the field, and
  encoding raises.
\<close>

theorem delta_encode_overflow_counterexample:
  "sorted [- 9223372036854775808, 9223372036854775807 :: int] \<and>
   list_all int64_ok [- 9223372036854775808, 9223372036854775807] \<and>
   delta_encode \<lparr>record_ids = [- 9223372036854775808, 9223372036854775807],
                 record_offsets = []\<rparr> = Inl ValueError"
  by (simp add: delta_encode_def delta_encode_step_def int64_ok_def)

text \<open>
  Claim C6, amended. For every list of \<open>int64\<close> record ids whose neighbouring
  differences are \<open>int64\<close> values, in particular for every ascending list of
  non-negative \<open>int64\<close> record ids, encoding succeeds and decoding the encoding gives
  the list back. The encoding keeps the first element and stores each later element as the
  difference to its predecessor; the original list is the list of prefix sums of the
  encoding; the offsets are untouched; encoding an empty list changes nothing.
\<close>

theorem delta_round_trip:
  "(record_ids pl = [] \<longrightarrow> delta_encode pl = Inr pl) \<and>
   (delta_representable (record_ids pl) \<or>
    sorted (record_ids pl) \<and> list_all int64_ok (record_ids pl) \<and> (\<forall>x\<in>set (record_ids pl). 0 \<le> x) \<longrightarrow>
      (\<exists>e. delta_encode pl = Inr e \<and> delta_decode e = Inr pl \<and>
           record_offsets e = record_offsets pl \<and>
           length (record_ids e) = length (record_ids pl) \<and>
           (\<forall>j<length (record_ids pl). record_ids e ! j =
              (if 0 < j then record_ids pl ! j - record_ids pl ! (j - 1) else record_ids pl ! j)) \<and>
           (\<forall>j<length (record_ids pl). record_ids pl ! j = sum_list (take (Suc j) (record_ids e)))))"
proof (intro conjI impI)
  assume "record_ids pl = []"
  then show "delta_encode pl = Inr pl"
    by (simp add: delta_encode_def)
next
  assume "delta_representable (record_ids pl) \<or>
    sorted (record_ids pl) \<and> list_all int64_ok (record_ids pl) \<and> (\<forall>x\<in>set (record_ids pl). 0 \<le> x)"
  then have rep: "delta_representable (record_ids pl)"
    using ascending_nonnegative_representable by blast
  then have ok: "list_all int64_ok (record_ids pl)" by (simp add: delta_representable_def)
  from delta_encode_succeeds[OF rep] obtain e where e: "delta_encode pl = Inr e" by blast
  note r = delta_encode_result[OF e]
  have "\<forall>j<length (record_ids pl). record_ids pl ! j = sum_list (take (Suc j) (record_ids e))"
    using sum_take_deltas[OF r(2) r(3)] by simp
  with e r delta_decode_encoded[OF e ok]
  show "\<exists>e. delta_encode pl = Inr e \<and> delta_decode e = Inr pl \<and>
           record_offsets e = record_offsets pl \<and>
           length (record_ids e) = length (record_ids pl) \<and>
           (\<forall>j<length (record_ids pl). record_ids e ! j =
              (if 0 < j then record_ids pl ! j - record_ids pl ! (j - 1) else record_ids pl ! j)) \<and>
           (\<forall>j<length (record_ids pl). record_ids pl ! j = sum_list (take (Suc j) (record_ids e)))"
    by blast
qed

theorem delta_round_trip_witness:
  "delta_encode \<lparr>record_ids = [], record_offsets = []\<rparr> = Inr \<lparr>record_ids = [], record_offsets = []\<rparr> \<and>
   delta_encode \<lparr>record_ids = [3, 5, 9], record_offsets = [0, 4, 1]\<rparr> =
     Inr \<lparr>record_ids = [3, 2, 4], record_offsets = [0, 4, 1]\<rparr> \<and>
   delta_decode \<lparr>record_ids = [3, 2, 4], record_offsets = [0, 4, 1]\<rparr> =
     Inr \<lparr>record_ids = [3, 5, 9], record_offsets = [0, 4, 1]\<rparr>"
proof -
  let ?P = "\<lparr>record_ids = [3, 5, 9 :: int], record_offsets = [0, 4, 1 :: int]\<rparr>"
  let ?E = "\<lparr>record_ids = [] :: int list, record_offsets = [] :: int list\<rparr>"
  from delta_round_trip[of ?E] have a: "delta_encode ?E = Inr ?E" by simp
  have h: "sorted (record_ids ?P) \<and> list_all int64_ok (record_ids ?P) \<and> (\<forall>x\<in>set (record_ids ?P). 0 \<le> x)"
    by (simp add: int64_ok_def)
  from delta_round_trip[of ?P] h obtain e where
    e: "delta_encode ?P = Inr e" and d: "delta_decode e = Inr ?P" and
    o: "record_offsets e = record_offsets ?P" and l: "length (record_ids e) = length (record_ids ?P)" and
    n: "\<forall>j<length (record_ids ?P). record_ids e ! j =
              (if 0 < j then record_ids ?P ! j - record_ids ?P ! (j - 1) else record_ids ?P ! j)"
    by blast
  from n[rule_format, of 0] n[rule_format, of "Suc 0"] n[rule_format, of "Suc (Suc 0)"]
  have "record_ids e ! 0 = 3" "record_ids e ! Suc 0 = 2" "record_ids e ! Suc (Suc 0) = 4"
    by simp_all
  with l have "record_ids e = [3, 2, 4]"
    by (intro nth_equalityI) (auto simp: less_Suc_eq numeral_3_eq_3)
  with o have "e = \<lparr>record_ids = [3, 2, 4], record_offsets = [0, 4, 1]\<rparr>" by simp
  with a e d show ?thesis by simp
qed

subsection \<open>Pattern matching\<close>

text \<open>
  Claim C8. End conditions of pattern matching, for every pattern, path and index: when the
  pattern is exhausted the match succeeds iff the path is exhausted; when the path is
  exhausted and matchers remain, the match succeeds iff every remaining matcher is a
  \<open>DoubleWildcardMatcher\<close>. Expansion over the schema of the test suite gives the three
  listed sets of paths.
\<close>

theorem pattern_end_conditions_and_expansion:
  "(length matchers \<le> pattern_index \<longrightarrow>
      pattern_match matchers field_path pattern_index = (field_path = [])) \<and>
   (pattern_index < length matchers \<longrightarrow>
      pattern_match matchers [] pattern_index =
        (\<forall>m\<in>set (drop pattern_index matchers). m = DoubleWildcardMatcher)) \<and>
   expand_field_pattern TestMessage ''**.sub_id'' =
     {[''sub'', ''sub_id''], [''nested_subs'', ''sub_id'']} \<and>
   expand_field_pattern TestMessage ''sub.*'' =
     {[''sub'', ''sub_id''], [''sub'', ''sub_name''], [''sub'', ''sub_value'']} \<and>
   expand_field_pattern TestMessage ''{id,name}'' = {[''id''], [''name'']}"
proof (intro conjI)
  show "length matchers \<le> pattern_index \<longrightarrow>
      pattern_match matchers field_path pattern_index = (field_path = [])"
    by simp
  show "pattern_index < length matchers \<longrightarrow>
      pattern_match matchers [] pattern_index =
        (\<forall>m\<in>set (drop pattern_index matchers). m = DoubleWildcardMatcher)"
    by (simp add: list_all_iff)
  show "expand_field_pattern TestMessage ''**.sub_id'' =
     {[''sub'', ''sub_id''], [''nested_subs'', ''sub_id'']}"
    by code_simp
  show "expand_field_pattern TestMessage ''sub.*'' =
     {[''sub'', ''sub_id''], [''sub'', ''sub_name''], [''sub'', ''sub_value'']}"
    by code_simp
  show "expand_field_pattern TestMessage ''{id,name}'' = {[''id''], [''name'']}"
    by code_simp
qed

theorem pattern_end_conditions_witness:
  "\<not> pattern_match [DoubleWildcardMatcher, ExactMatcher ''a''] [''x''] 2 \<and>
   pattern_match [DoubleWildcardMatcher, ExactMatcher ''a''] [] 2 \<and>
   \<not> pattern_match [DoubleWildcardMatcher, ExactMatcher ''a''] [] 0 \<and>
   pattern_match [ExactMatcher ''a'', DoubleWildcardMatcher, DoubleWildcardMatcher] [] 1"
  using pattern_end_conditions_and_expansion
          [of "[DoubleWildcardMatcher, ExactMatcher ''a'']" 2 "[''x'']"]
        pattern_end_conditions_and_expansion
          [of "[DoubleWildcardMatcher, ExactMatcher ''a'']" 2 "[]"]
        pattern_end_conditions_and_expansion
          [of "[DoubleWildcardMatcher, ExactMatcher ''a'']" 0 "[]"]
        pattern_end_conditions_and_expansion
          [of "[ExactMatcher ''a'', DoubleWildcardMatcher, DoubleWildcardMatcher]" 1 "[]"]
  by simp

subsection \<open>HashBucket writer and reader\<close>

lemma add_distinct: "distinct (map fst data) \<Longrightarrow> distinct (map fst (HashBucketWriter_add k ids data))"
  by (simp add: HashBucketWriter_add_def distinct_update)

lemma add_keys: "fst ` set (HashBucketWriter_add k ids data) = insert k (fst ` set data)"
  by (simp add: HashBucketWriter_add_def dom_update)

lemma add_get: "data_get (HashBucketWriter_add k ids data) k' =
   (if k' = k then data_get data k \<union> set ids else data_get data k')"
  by (simp add: HashBucketWriter_add_def data_get_def update_conv')

lemma fold_add_props:
  "distinct (map fst d0) \<Longrightarrow>
   distinct (map fst (fold (\<lambda>(k, ids). HashBucketWriter_add k ids) adds d0)) \<and>
   fst ` set (fold (\<lambda>(k, ids). HashBucketWriter_add k ids) adds d0) = fst ` set d0 \<union> fst ` set adds \<and>
   (\<forall>k. data_get (fold (\<lambda>(k, ids). HashBucketWriter_add k ids) adds d0) k = data_get d0 k \<union> added_ids adds k)"
proof (induction adds arbitrary: d0)
  case Nil
  then show ?case by (simp add: added_ids_def)
next
  case (Cons a adds)
  obtain k ids where a: "a = (k, ids)" by (cases a)
  from Cons.prems have d: "distinct (map fst (HashBucketWriter_add k ids d0))" by (rule add_distinct)
  have u: "added_ids ((k, ids) # adds) k' = (if k' = k then set ids else {}) \<union> added_ids adds k'" for k'
    by (auto simp: added_ids_def)
  from Cons.IH[OF d] show ?case
    by (auto simp: a add_keys add_get u)
qed

lemma build_props:
  "distinct (map fst (build adds))"
  "fst ` set (build adds) = fst ` set adds"
  "data_get (build adds) k = added_ids adds k"
  using fold_add_props[of "[]" adds] by (auto simp: build_def data_get_def)

lemma group_fold:
  "fold (\<lambda>k. bucket_append (h k) k) ks m b =
     (if filter (\<lambda>k. h k = b) ks = [] then m b
      else Some ((case m b of None \<Rightarrow> [] | Some l \<Rightarrow> l) @ filter (\<lambda>k. h k = b) ks))"
  by (induction ks arbitrary: m) (auto simp: bucket_append_def)

lemma group_keys_eq:
  "group_keys cfg n ks b =
     (if filter (\<lambda>k. hash_key cfg k mod n = b) ks = [] then None
      else Some (filter (\<lambda>k. hash_key cfg k mod n = b) ks))"
  unfolding group_keys_def by (simp add: group_fold[where h="\<lambda>k. hash_key cfg k mod n"])

lemma write_bucket_eq:
  "write_bucket data (group_keys cfg n ks) b =
     (if \<forall>k\<in>set ks. hash_key cfg k mod n = b \<longrightarrow>
                        list_all int64_ok (sorted_list_of_set (data_get data k))
      then Inr (map (\<lambda>k. \<lparr>key = k, hr_record_ids = sorted_list_of_set (data_get data k)\<rparr>)
                  (sort (filter (\<lambda>k. hash_key cfg k mod n = b) ks)))
      else Inl ValueError)"
proof (cases "filter (\<lambda>k. hash_key cfg k mod n = b) ks = []")
  case True
  then have "\<forall>k\<in>set ks. hash_key cfg k mod n \<noteq> b" by (simp add: filter_empty_conv)
  with True show ?thesis by (simp add: write_bucket_def group_keys_eq)
next
  case False
  let ?ks = "sort (filter (\<lambda>k. hash_key cfg k mod n = b) ks)"
  have "map_err (\<lambda>k. new_HashRecord k (sorted_list_of_set (data_get data k))) ?ks =
     (if \<forall>k\<in>set ?ks. list_all int64_ok (sorted_list_of_set (data_get data k))
      then Inr (map (\<lambda>k. \<lparr>key = k, hr_record_ids = sorted_list_of_set (data_get data k)\<rparr>) ?ks)
      else Inl ValueError)"
    by (rule map_err_cases) (simp add: new_HashRecord_def)
  with False show ?thesis by (auto simp: write_bucket_def group_keys_eq)
qed

lemma find_key_map:
  "find (\<lambda>r. key r = k) (map (\<lambda>k. \<lparr>key = k, hr_record_ids = f k\<rparr>) xs) =
     (if k \<in> set xs then Some \<lparr>key = k, hr_record_ids = f k\<rparr> else None)"
  by (induction xs) auto

lemma write_eq:
  "HashBucketWriter_write cfg data =
     (case bucket_quotient cfg (length data) of
        Inl e \<Rightarrow> Inl e
      | Inr q \<Rightarrow>
          if \<forall>k\<in>fst ` set data. list_all int64_ok (sorted_list_of_set (data_get data k))
          then Inr \<lparr>buckets =
                 map (\<lambda>b. map (\<lambda>k. \<lparr>key = k, hr_record_ids = sorted_list_of_set (data_get data k)\<rparr>)
                            (sort (filter (\<lambda>k. hash_key cfg k mod nat (max 1 q) = b) (map fst data))))
                   [0..<nat (max 1 q)],
                 descriptor = cfg\<rparr>
          else Inl ValueError)"
proof (cases "bucket_quotient cfg (length data)")
  case (Inl e)
  then show ?thesis by (simp add: HashBucketWriter_write_def)
next
  case (Inr q)
  define n where "n = nat (max 1 q)"
  have n: "0 < n" by (simp add: n_def)
  let ?ok = "\<lambda>b. \<forall>k\<in>set (map fst data). hash_key cfg k mod n = b \<longrightarrow>
                        list_all int64_ok (sorted_list_of_set (data_get data k))"
  let ?g = "\<lambda>b. map (\<lambda>k. \<lparr>key = k, hr_record_ids = sorted_list_of_set (data_get data k)\<rparr>)
                  (sort (filter (\<lambda>k. hash_key cfg k mod n = b) (map fst data)))"
  have m: "map_err (write_bucket data (group_keys cfg n (map fst data))) [0..<n] =
       (if \<forall>b\<in>set [0..<n]. ?ok b then Inr (map ?g [0..<n]) else Inl ValueError)"
    by (rule map_err_cases) (simp add: write_bucket_eq)
  have "(\<forall>b\<in>set [0..<n]. ?ok b) =
        (\<forall>k\<in>fst ` set data. list_all int64_ok (sorted_list_of_set (data_get data k)))"
  proof
    assume a: "\<forall>b\<in>set [0..<n]. ?ok b"
    show "\<forall>k\<in>fst ` set data. list_all int64_ok (sorted_list_of_set (data_get data k))"
    proof
      fix k assume k: "k \<in> fst ` set data"
      have "hash_key cfg k mod n \<in> set [0..<n]" using n by simp
      with a k show "list_all int64_ok (sorted_list_of_set (data_get data k))" by auto
    qed
  next
    assume "\<forall>k\<in>fst ` set data. list_all int64_ok (sorted_list_of_set (data_get data k))"
    then show "\<forall>b\<in>set [0..<n]. ?ok b" by auto
  qed
  with m have "map_err (write_bucket data (group_keys cfg n (map fst data))) [0..<n] =
       (if \<forall>k\<in>fst ` set data. list_all int64_ok (sorted_list_of_set (data_get data k))
        then Inr (map ?g [0..<n]) else Inl ValueError)"
    by simp
  then show ?thesis
    using Inr by (simp add: HashBucketWriter_write_def Let_def n_def[symmetric])
qed

lemma lookup_write:
  assumes "HashBucketWriter_write cfg data = Inr bag"
  shows "HashBucketReader_lookup cfg bag k =
     Inr (if k \<in> fst ` set data then Some (sorted_list_of_set (data_get data k)) else None)"
proof -
  from assms obtain q where q: "bucket_quotient cfg (length data) = Inr q"
    by (auto simp: HashBucketWriter_write_def split: sum.splits)
  define n where "n = nat (max 1 q)"
  have n: "0 < n" by (simp add: n_def)
  from assms q have bag: "buckets bag =
      map (\<lambda>b. map (\<lambda>k. \<lparr>key = k, hr_record_ids = sorted_list_of_set (data_get data k)\<rparr>)
                 (sort (filter (\<lambda>k. hash_key cfg k mod n = b) (map fst data)))) [0..<n]"
    by (auto simp: write_eq n_def split: if_splits)
  have lt: "hash_key cfg k mod n < n" using n by simp
  show ?thesis
    using n lt by (simp add: HashBucketReader_lookup_def bag find_key_map)
qed

lemma write_descriptor:
  "HashBucketWriter_write cfg data = Inr bag \<Longrightarrow> descriptor bag = cfg"
  by (auto simp: HashBucketWriter_write_def Let_def split: sum.splits)

lemma lookup_build:
  assumes "HashBucketWriter_write cfg (build adds) = Inr bag"
  shows "HashBucketReader_lookup cfg bag k =
     Inr (if k \<in> fst ` set adds then Some (sorted_list_of_set (added_ids adds k)) else None)"
  using lookup_write[OF assms, of k] by (simp add: build_props)

lemma added_ids_finite: "finite (added_ids adds k)"
  by (simp add: added_ids_def)

lemma added_ids_int64:
  "(\<forall>k\<in>fst ` set adds. list_all int64_ok (sorted_list_of_set (added_ids adds k))) =
   (\<forall>a\<in>set adds. list_all int64_ok (snd a))"
proof -
  have "(\<forall>k\<in>fst ` set adds. \<forall>v\<in>added_ids adds k. int64_ok v) =
        (\<forall>a\<in>set adds. \<forall>v\<in>set (snd a). int64_ok v)"
    by (fastforce simp: added_ids_def)
  then show ?thesis by (simp add: list_all_iff added_ids_finite)
qed

lemma build_length: "length (build adds) = card (fst ` set adds)"
  using distinct_card[OF build_props(1), of adds] build_props(2)[of adds] by simp

lemma write_build_succeeds_iff:
  "(\<exists>bag. HashBucketWriter_write cfg (build adds) = Inr bag) =
   ((\<exists>q. bucket_quotient cfg (card (fst ` set adds)) = Inr q) \<and>
    (\<forall>a\<in>set adds. list_all int64_ok (snd a)))"
  unfolding write_eq build_length build_props added_ids_int64[symmetric]
  by (auto split: sum.splits)

lemma sort_filter_distinct:
  "distinct ks \<Longrightarrow> sort (filter P ks) = sorted_list_of_set {k \<in> set ks. P k}"
  by (rule sorted_distinct_set_unique) auto

lemma write_canonical:
  assumes "distinct (map fst data)"
  shows "HashBucketWriter_write cfg data =
     (case bucket_quotient cfg (card (fst ` set data)) of
        Inl e \<Rightarrow> Inl e
      | Inr q \<Rightarrow>
          if \<forall>k\<in>fst ` set data. list_all int64_ok (sorted_list_of_set (data_get data k))
          then Inr \<lparr>buckets = map (\<lambda>b. map (\<lambda>k. \<lparr>key = k, hr_record_ids = sorted_list_of_set (data_get data k)\<rparr>)
                (sorted_list_of_set {k \<in> fst ` set data. hash_key cfg k mod nat (max 1 q) = b}))
                [0..<nat (max 1 q)], descriptor = cfg\<rparr>
          else Inl ValueError)"
proof -
  have c: "card (fst ` set data) = length data"
    using assms distinct_card[of "map fst data"] by simp
  have s: "sort (filter P (map fst data)) = sorted_list_of_set {k \<in> fst ` set data. P k}" for P
    using sort_filter_distinct[OF assms, of P] by simp
  show ?thesis
    unfolding c write_eq s ..
qed

lemma write_order_independent:
  assumes "set adds1 = set adds2"
  shows "HashBucketWriter_write cfg (build adds1) = HashBucketWriter_write cfg (build adds2)"
proof -
  have "added_ids adds k = \<Union> (set ` snd ` {a \<in> set adds. fst a = k})" for adds k
    by (auto simp: added_ids_def)
  then have a: "added_ids adds1 = added_ids adds2" using assms by (simp add: fun_eq_iff)
  show ?thesis
    unfolding write_canonical[OF build_props(1)] build_props(2,3) a assms by (rule refl)
qed

text \<open>
  Claim C1. A sequence of \<open>add\<close> calls followed by \<open>write\<close> produces an index
  exactly when the bucket count can be computed and every record id is an \<open>int64\<close>
  value. On every index so produced, \<open>lookup\<close> of any key returns the sorted
  duplicate-free list of exactly the record ids added with that key, and \<open>None\<close> for a
  key that was never added.
\<close>

theorem hashbucket_lookup_exact:
  "((\<exists>bag. HashBucketWriter_write cfg (build adds) = Inr bag) =
      ((\<exists>q. bucket_quotient cfg (card (fst ` set adds)) = Inr q) \<and>
       (\<forall>a\<in>set adds. list_all int64_ok (snd a)))) \<and>
   (\<forall>bag. HashBucketWriter_write cfg (build adds) = Inr bag \<longrightarrow>
      descriptor bag = cfg \<and>
      (\<forall>k. HashBucketReader_lookup (descriptor bag) bag k =
             Inr (if k \<in> fst ` set adds
                  then Some (sorted_list_of_set (added_ids adds k)) else None)))"
proof (intro conjI allI impI)
  show "(\<exists>bag. HashBucketWriter_write cfg (build adds) = Inr bag) =
      ((\<exists>q. bucket_quotient cfg (card (fst ` set adds)) = Inr q) \<and>
       (\<forall>a\<in>set adds. list_all int64_ok (snd a)))"
    by (rule write_build_succeeds_iff)
next
  fix bag assume w: "HashBucketWriter_write cfg (build adds) = Inr bag"
  then show "descriptor bag = cfg" by (rule write_descriptor)
next
  fix bag k assume w: "HashBucketWriter_write cfg (build adds) = Inr bag"
  from lookup_build[OF w, of k] write_descriptor[OF w]
  show "HashBucketReader_lookup (descriptor bag) bag k =
             Inr (if k \<in> fst ` set adds
                  then Some (sorted_list_of_set (added_ids adds k)) else None)"
    by simp
qed

theorem hashbucket_lookup_exact_witness:
  "\<exists>bag. HashBucketWriter_write example_config (build example_adds) = Inr bag \<and>
     HashBucketReader_lookup example_config bag ''hello'' = Inr (Some [1, 2, 3, 7, 8, 9]) \<and>
     HashBucketReader_lookup example_config bag ''world'' = Inr (Some [4, 5, 6]) \<and>
     HashBucketReader_lookup example_config bag ''foo'' = Inr (Some [10]) \<and>
     HashBucketReader_lookup example_config bag ''bar'' = Inr (Some [11]) \<and>
     HashBucketReader_lookup example_config bag ''nonexistent'' = Inr None"
proof -
  have c: "card (fst ` set example_adds) = 4"
    by (simp add: example_adds_def card_insert_if)
  have q: "\<exists>q. bucket_quotient example_config (card (fst ` set example_adds)) = Inr q"
    unfolding c by (simp add: example_config_def)
  have i: "\<forall>a\<in>set example_adds. list_all int64_ok (snd a)"
    by (simp add: example_adds_def int64_ok_def)
  note t = hashbucket_lookup_exact[of example_config example_adds]
  from t q i obtain bag where
    w: "HashBucketWriter_write example_config (build example_adds) = Inr bag"
    by blast
  with t have "descriptor bag = example_config" and
    "\<And>k. HashBucketReader_lookup (descriptor bag) bag k =
                  Inr (if k \<in> fst ` set example_adds
                       then Some (sorted_list_of_set (added_ids example_adds k)) else None)"
    by blast+
  then have
    l: "\<And>k. HashBucketReader_lookup example_config bag k =
                  Inr (if k \<in> fst ` set example_adds
                       then Some (sorted_list_of_set (added_ids example_adds k)) else None)"
    by simp
  have "HashBucketReader_lookup example_config bag ''hello'' = Inr (Some [1, 2, 3, 7, 8, 9])"
    unfolding l by (simp add: example_adds_def added_ids_def sorted_list_of_set_sort_remdups)
  moreover have "HashBucketReader_lookup example_config bag ''world'' = Inr (Some [4, 5, 6])"
    unfolding l by (simp add: example_adds_def added_ids_def sorted_list_of_set_sort_remdups)
  moreover have "HashBucketReader_lookup example_config bag ''foo'' = Inr (Some [10])"
    unfolding l by (simp add: example_adds_def added_ids_def sorted_list_of_set_sort_remdups)
  moreover have "HashBucketReader_lookup example_config bag ''bar'' = Inr (Some [11])"
    unfolding l by (simp add: example_adds_def added_ids_def sorted_list_of_set_sort_remdups)
  moreover have "HashBucketReader_lookup example_config bag ''nonexistent'' = Inr None"
    unfolding l by (simp add: example_adds_def)
  ultimately show ?thesis using w by blast
qed

text \<open>
  Claim C10. When every record id is an \<open>int64\<close> value and the bucket count can be
  computed, so that \<open>write\<close> produces an index, a key added only with empty record id
  sequences is still written to the index: its lookup returns the empty tuple, while a key
  never added gives \<open>None\<close>.
\<close>

theorem hashbucket_empty_ids_materialized:
  assumes "bucket_quotient cfg (card (fst ` set adds)) = Inr q"
    and "\<forall>a\<in>set adds. list_all int64_ok (snd a)"
    and "k \<in> fst ` set adds"
    and "\<forall>ids. (k, ids) \<in> set adds \<longrightarrow> ids = []"
    and "k' \<notin> fst ` set adds"
  shows "\<exists>bag. HashBucketWriter_write cfg (build adds) = Inr bag \<and>
           HashBucketReader_lookup (descriptor bag) bag k = Inr (Some []) \<and>
           HashBucketReader_lookup (descriptor bag) bag k' = Inr None"
proof -
  from assms(1) assms(2) obtain bag where w: "HashBucketWriter_write cfg (build adds) = Inr bag"
    using write_build_succeeds_iff[of cfg adds] by blast
  from assms(4) have "added_ids adds k = {}"
    by (auto simp: added_ids_def)
  with lookup_build[OF w, of k] lookup_build[OF w, of k'] assms(3) assms(5) w
    write_descriptor[OF w]
  show ?thesis by simp
qed

theorem hashbucket_empty_ids_materialized_witness:
  "\<exists>bag. HashBucketWriter_write example_config
            (build [(''a'', []), (''b'', [1]), (''a'', [])]) = Inr bag \<and>
     HashBucketReader_lookup (descriptor bag) bag ''a'' = Inr (Some []) \<and>
     HashBucketReader_lookup (descriptor bag) bag ''c'' = Inr None"
proof -
  have c: "card (fst ` set [(''a'', [] :: int list), (''b'', [1]), (''a'', [])]) = 2"
    by (simp add: card_insert_if)
  have q: "bucket_quotient example_config
             (card (fst ` set [(''a'', [] :: int list), (''b'', [1]), (''a'', [])])) = Inr 2"
    unfolding c by (simp add: example_config_def)
  show ?thesis
    by (rule hashbucket_empty_ids_materialized[OF q]) (auto simp: int64_ok_def)
qed

subsection \<open>Trigram: character map and n-gram index\<close>

lemma char_map_fold_inv:
  assumes "distinct (map fst cm0)" "fst ` set cm0 = set pre"
    "\<forall>c v. map_of cm0 c = Some v \<longrightarrow> v < length pre \<and> pre ! v = c"
  shows "distinct (map fst (fold (\<lambda>(i, c). AList.update c i) (enumerate (length pre) xs) cm0)) \<and>
         fst ` set (fold (\<lambda>(i, c). AList.update c i) (enumerate (length pre) xs) cm0) = set (pre @ xs) \<and>
         (\<forall>c v. map_of (fold (\<lambda>(i, c). AList.update c i) (enumerate (length pre) xs) cm0) c = Some v
             \<longrightarrow> v < length (pre @ xs) \<and> (pre @ xs) ! v = c)"
  using assms
proof (induction xs arbitrary: pre cm0)
  case Nil
  then show ?case by simp
next
  case (Cons x xs)
  let ?cm1 = "AList.update x (length pre) cm0"
  have d: "distinct (map fst ?cm1)" using Cons.prems(1) by (simp add: distinct_update)
  have k: "fst ` set ?cm1 = set (pre @ [x])" using Cons.prems(2) by (simp add: dom_update)
  have v: "\<forall>c v. map_of ?cm1 c = Some v \<longrightarrow> v < length (pre @ [x]) \<and> (pre @ [x]) ! v = c"
  proof (intro allI impI)
    fix c v assume m: "map_of ?cm1 c = Some v"
    show "v < length (pre @ [x]) \<and> (pre @ [x]) ! v = c"
    proof (cases "c = x")
      case True
      with m show ?thesis by (auto simp: update_conv' nth_append)
    next
      case False
      with m have "map_of cm0 c = Some v" by (simp add: update_conv')
      with Cons.prems(3) have "v < length pre \<and> pre ! v = c" by blast
      then show ?thesis by (simp add: nth_append)
    qed
  qed
  from Cons.IH[of ?cm1 "pre @ [x]", OF d k v] show ?case by simp
qed

lemma char_map_props:
  "distinct (map fst (char_to_int_map cfg))"
  "fst ` set (char_to_int_map cfg) = set (effective_character_set cfg)"
  "map_of (char_to_int_map cfg) c = Some v \<Longrightarrow>
     v < length (effective_character_set cfg) \<and> effective_character_set cfg ! v = c"
  using char_map_fold_inv[of "[]" "[]" "effective_character_set cfg"]
  by (auto simp: char_to_int_map_def)

lemma char_map_dom:
  "(map_of (char_to_int_map cfg) c = None) = (c \<notin> set (effective_character_set cfg))"
  using char_map_props(2)[of cfg] by (simp add: map_of_eq_None_iff)

lemma char_map_length_le:
  "length (char_to_int_map cfg) \<le> length (effective_character_set cfg)"
proof -
  have "length (char_to_int_map cfg) = card (set (map fst (char_to_int_map cfg)))"
    using distinct_card[OF char_map_props(1), of cfg] by simp
  also have "\<dots> = card (set (effective_character_set cfg))"
    using char_map_props(2)[of cfg] by simp
  also have "\<dots> \<le> length (effective_character_set cfg)" by (rule card_length)
  finally show ?thesis .
qed

lemma char_map_length_distinct:
  assumes "distinct (effective_character_set cfg)"
  shows "length (char_to_int_map cfg) = length (effective_character_set cfg)"
proof -
  have "length (char_to_int_map cfg) = card (set (map fst (char_to_int_map cfg)))"
    using distinct_card[OF char_map_props(1), of cfg] by simp
  also have "\<dots> = card (set (effective_character_set cfg))"
    using char_map_props(2)[of cfg] by simp
  also have "\<dots> = length (effective_character_set cfg)" using assms by (rule distinct_card)
  finally show ?thesis .
qed

lemma index_loop_invalid:
  "\<not> set s \<subseteq> set (effective_character_set cfg) \<Longrightarrow>
   ngram_to_index_loop (char_to_int_map cfg) b acc s = - 1"
proof (induction s arbitrary: acc)
  case Nil
  then show ?case by simp
next
  case (Cons c s)
  show ?case
  proof (cases "map_of (char_to_int_map cfg) c")
    case None
    then show ?thesis by simp
  next
    case (Some v)
    then have "c \<in> set (effective_character_set cfg)"
      using char_map_dom[of cfg c] by auto
    with Cons.prems have "\<not> set s \<subseteq> set (effective_character_set cfg)" by simp
    from Cons.IH[OF this] Some show ?thesis by simp
  qed
qed

lemma index_loop_bounds:
  fixes L :: nat
  assumes "int (length (char_to_int_map cfg)) = b" "L = length (effective_character_set cfg)"
  shows "set s \<subseteq> set (effective_character_set cfg) \<Longrightarrow> 0 \<le> acc \<Longrightarrow> acc < int L ^ j \<Longrightarrow>
     0 \<le> ngram_to_index_loop (char_to_int_map cfg) b acc s \<and>
     ngram_to_index_loop (char_to_int_map cfg) b acc s < int L ^ (j + length s)"
proof (induction s arbitrary: acc j)
  case Nil
  then show ?case by simp
next
  case (Cons c s)
  from Cons.prems(1) obtain v where Some: "map_of (char_to_int_map cfg) c = Some v"
    using char_map_dom[of cfg c] by auto
  from char_map_props(3)[OF Some] assms(2) have vL: "v < L" by simp
  have bL: "b \<le> int L" "0 \<le> b" using char_map_length_le[of cfg] assms by auto
  have a0: "0 \<le> acc * b + int v" using Cons.prems(2) bL by simp
  have "acc * b \<le> acc * int L" using Cons.prems(2) bL by (simp add: mult_left_mono)
  moreover have "acc + 1 \<le> int L ^ j" using Cons.prems(3) by simp
  then have "(acc + 1) * int L \<le> int L ^ j * int L" by (rule mult_right_mono) simp
  ultimately have "acc * b + int v < int L ^ j * int L"
    using vL by (simp add: algebra_simps)
  then have a1: "acc * b + int v < int L ^ Suc j" by (simp add: mult.commute)
  from Cons.prems(1) have s: "set s \<subseteq> set (effective_character_set cfg)" by simp
  from Cons.IH[OF s a0 a1] Some show ?case by simp
qed

lemma ngram_index_valid:
  assumes "set s \<subseteq> set (effective_character_set cfg)"
  shows "0 \<le> ngram_to_index s (char_to_int_map cfg)"
    and "nat (ngram_to_index s (char_to_int_map cfg)) < length (effective_character_set cfg) ^ length s"
proof -
  from index_loop_bounds[OF refl refl assms, where acc=0 and j=0]
  have "0 \<le> ngram_to_index s (char_to_int_map cfg) \<and>
        ngram_to_index s (char_to_int_map cfg) < int (length (effective_character_set cfg)) ^ length s"
    by (simp add: ngram_to_index_def)
  then show "0 \<le> ngram_to_index s (char_to_int_map cfg)"
    and "nat (ngram_to_index s (char_to_int_map cfg)) < length (effective_character_set cfg) ^ length s"
    by (auto simp: nat_less_iff)
qed

lemma ngram_index_invalid:
  "\<not> set s \<subseteq> set (effective_character_set cfg) \<Longrightarrow> ngram_to_index s (char_to_int_map cfg) = - 1"
  by (simp add: ngram_to_index_def index_loop_invalid)

lemma ngram_index_valid_iff:
  "(ngram_to_index s (char_to_int_map cfg) \<noteq> - 1) = (set s \<subseteq> set (effective_character_set cfg))"
  using ngram_index_valid(1)[of s cfg] ngram_index_invalid[of s cfg] by auto

lemma ngram_index_range:
  "ngram_to_index s (char_to_int_map cfg) \<noteq> - 1 \<Longrightarrow>
   0 \<le> ngram_to_index s (char_to_int_map cfg) \<and>
   nat (ngram_to_index s (char_to_int_map cfg)) < length (effective_character_set cfg) ^ length s"
  using ngram_index_valid[of s cfg] ngram_index_invalid[of s cfg] by auto

lemma ngram_index_ge: "- 1 \<le> ngram_to_index s (char_to_int_map cfg)"
  using ngram_index_valid(1)[of s cfg] ngram_index_invalid[of s cfg] by (cases "set s \<subseteq> set (effective_character_set cfg)") auto

lemma digit_div:
  fixes a :: int
  assumes "v < L"
  shows "(a * int L + int v) div int L = a"
proof -
  from assms have "int L \<noteq> 0" by simp
  then have "(a * int L + int v) div int L = a + int v div int L"
    by (simp add: div_mult_self3)
  also have "int v div int L = 0" using assms by (simp add: div_pos_pos_trivial)
  finally show ?thesis by simp
qed

lemma index_loop_inj:
  assumes d: "distinct (effective_character_set cfg)"
    and b: "b = int (length (char_to_int_map cfg))"
  shows "length s1 = length s2 \<Longrightarrow> 0 \<le> a1 \<Longrightarrow> 0 \<le> a2 \<Longrightarrow>
     set s1 \<subseteq> set (effective_character_set cfg) \<Longrightarrow>
     set s2 \<subseteq> set (effective_character_set cfg) \<Longrightarrow>
     ngram_to_index_loop (char_to_int_map cfg) b a1 s1 =
       ngram_to_index_loop (char_to_int_map cfg) b a2 s2 \<Longrightarrow>
     a1 = a2 \<and> s1 = s2"
proof (induction s1 s2 arbitrary: a1 a2 rule: list_induct2)
  case Nil
  then show ?case by simp
next
  case (Cons c1 s1 c2 s2)
  let ?L = "length (effective_character_set cfg)"
  have bL: "b = int ?L" using b char_map_length_distinct[OF d] by simp
  from Cons.prems obtain v1 where v1: "map_of (char_to_int_map cfg) c1 = Some v1"
    using char_map_dom[of cfg c1] by auto
  from Cons.prems obtain v2 where v2: "map_of (char_to_int_map cfg) c2 = Some v2"
    using char_map_dom[of cfg c2] by auto
  note p1 = char_map_props(3)[OF v1] and p2 = char_map_props(3)[OF v2]
  have n1: "0 \<le> a1 * b + int v1" and n2: "0 \<le> a2 * b + int v2"
    using Cons.prems bL by auto
  from Cons.prems(5) v1 v2 have
    "ngram_to_index_loop (char_to_int_map cfg) b (a1 * b + int v1) s1 =
     ngram_to_index_loop (char_to_int_map cfg) b (a2 * b + int v2) s2" by simp
  from Cons.IH[OF n1 n2 _ _ this] Cons.prems
  have e: "a1 * b + int v1 = a2 * b + int v2" and s: "s1 = s2" by auto
  have "(a1 * b + int v1) div b = a1" "(a2 * b + int v2) div b = a2"
    unfolding bL using p1 p2 by (simp_all add: digit_div)
  with e have a: "a1 = a2" by metis
  with e have "v1 = v2" by simp
  with p1 p2 have "c1 = c2" by auto
  with a s show ?case by simp
qed

lemma ngram_index_inj:
  assumes "distinct (effective_character_set cfg)" "length s1 = length s2"
    "set s1 \<subseteq> set (effective_character_set cfg)"
    "ngram_to_index s1 (char_to_int_map cfg) = ngram_to_index s2 (char_to_int_map cfg)"
  shows "s1 = s2"
proof -
  from assms(3) have "ngram_to_index s1 (char_to_int_map cfg) \<noteq> - 1"
    by (simp add: ngram_index_valid_iff)
  with assms(4) have "set s2 \<subseteq> set (effective_character_set cfg)"
    by (simp add: ngram_index_valid_iff)
  with index_loop_inj[OF assms(1) refl assms(2), of 0 0] assms(3) assms(4)
  show ?thesis by (simp add: ngram_to_index_def)
qed

subsection \<open>Trigram: what a build holds\<close>

lemma ngram_at_length:
  "i \<in> set (ngram_range cfg text) \<Longrightarrow> length (ngram_at cfg text i) = ngram_size cfg"
  by (auto simp: ngram_range_def ngram_at_def)

lemma ngram_index_in_range:
  assumes "i \<in> set (ngram_range cfg text)"
    and "ngram_to_index (ngram_at cfg text i) (char_to_int_map cfg) \<noteq> - 1"
  shows "0 \<le> ngram_to_index (ngram_at cfg text i) (char_to_int_map cfg)"
    and "nat (ngram_to_index (ngram_at cfg text i) (char_to_int_map cfg)) < num_postings cfg"
  using ngram_index_range[OF assms(2)] ngram_at_length[OF assms(1)]
  by (simp_all add: num_postings_def)

lemma positional_fold:
  assumes "length ps = num_postings cfg" "set js \<subseteq> set (ngram_range cfg text)"
  shows "\<exists>ps'. fold_err (positional_add_step cfg text rid) js ps = Inr ps' \<and>
           length ps' = length ps \<and>
           (\<forall>k<length ps. ps' ! k =
              (fst (ps ! k) @ map (\<lambda>i. rid)
                 (filter (\<lambda>i. ngram_to_index (ngram_at cfg text i) (char_to_int_map cfg) = int k) js),
               snd (ps ! k) @ map int
                 (filter (\<lambda>i. ngram_to_index (ngram_at cfg text i) (char_to_int_map cfg) = int k) js)))"
  using assms
proof (induction js arbitrary: ps)
  case Nil
  then show ?case by simp
next
  case (Cons i js)
  let ?idx = "ngram_to_index (ngram_at cfg text i) (char_to_int_map cfg)"
  from Cons.prems have i: "i \<in> set (ngram_range cfg text)"
    and js: "set js \<subseteq> set (ngram_range cfg text)" by auto
  show ?case
  proof (cases "?idx = - 1")
    case True
    then have s: "positional_add_step cfg text rid i ps = Inr ps"
      by (simp add: positional_add_step_def)
    from True have "?idx \<noteq> int k" for k by simp
    with Cons.IH[OF Cons.prems(1) js] s show ?thesis by simp
  next
    case False
    note r = ngram_index_in_range[OF i False]
    let ?ps1 = "ps[nat ?idx := (fst (ps ! nat ?idx) @ [rid], snd (ps ! nat ?idx) @ [int i])]"
    from r Cons.prems(1) False have s: "positional_add_step cfg text rid i ps = Inr ?ps1"
      by (simp add: positional_add_step_def Let_def)
    have l1: "length ?ps1 = num_postings cfg" using Cons.prems(1) by simp
    from Cons.IH[OF l1 js] obtain ps' where
      f: "fold_err (positional_add_step cfg text rid) js ?ps1 = Inr ps'" and
      l: "length ps' = length ?ps1" and
      c: "\<forall>k<length ?ps1. ps' ! k =
              (fst (?ps1 ! k) @ map (\<lambda>i. rid)
                 (filter (\<lambda>i. ngram_to_index (ngram_at cfg text i) (char_to_int_map cfg) = int k) js),
               snd (?ps1 ! k) @ map int
                 (filter (\<lambda>i. ngram_to_index (ngram_at cfg text i) (char_to_int_map cfg) = int k) js))"
      by blast
    have e: "(?idx = int k) = (k = nat ?idx)" for k using r(1) by auto
    have "\<forall>k<length ps. ps' ! k =
              (fst (ps ! k) @ map (\<lambda>i. rid)
                 (filter (\<lambda>i. ngram_to_index (ngram_at cfg text i) (char_to_int_map cfg) = int k) (i # js)),
               snd (ps ! k) @ map int
                 (filter (\<lambda>i. ngram_to_index (ngram_at cfg text i) (char_to_int_map cfg) = int k) (i # js)))"
    proof (intro allI impI)
      fix k assume k: "k < length ps"
      with c have ck: "ps' ! k =
              (fst (?ps1 ! k) @ map (\<lambda>i. rid)
                 (filter (\<lambda>i. ngram_to_index (ngram_at cfg text i) (char_to_int_map cfg) = int k) js),
               snd (?ps1 ! k) @ map int
                 (filter (\<lambda>i. ngram_to_index (ngram_at cfg text i) (char_to_int_map cfg) = int k) js))"
        by simp
      show "ps' ! k =
              (fst (ps ! k) @ map (\<lambda>i. rid)
                 (filter (\<lambda>i. ngram_to_index (ngram_at cfg text i) (char_to_int_map cfg) = int k) (i # js)),
               snd (ps ! k) @ map int
                 (filter (\<lambda>i. ngram_to_index (ngram_at cfg text i) (char_to_int_map cfg) = int k) (i # js)))"
      proof (cases "k = nat ?idx")
        case True
        with ck k e[of k] show ?thesis by simp
      next
        case False
        with ck k e[of k] show ?thesis by simp
      qed
    qed
    with f l s show ?thesis by simp
  qed
qed

lemma simple_fold:
  assumes "length ps = num_postings cfg" "set js \<subseteq> set (ngram_range cfg text)"
  shows "\<exists>ps'. fold_err (simple_add_step cfg text rid) js ps = Inr ps' \<and>
           length ps' = length ps \<and>
           (\<forall>k<length ps. ps' ! k = ps ! k \<union> set (map (\<lambda>i. rid)
                 (filter (\<lambda>i. ngram_to_index (ngram_at cfg text i) (char_to_int_map cfg) = int k) js)))"
  using assms
proof (induction js arbitrary: ps)
  case Nil
  then show ?case by simp
next
  case (Cons i js)
  let ?idx = "ngram_to_index (ngram_at cfg text i) (char_to_int_map cfg)"
  from Cons.prems have i: "i \<in> set (ngram_range cfg text)"
    and js: "set js \<subseteq> set (ngram_range cfg text)" by auto
  show ?case
  proof (cases "?idx = - 1")
    case True
    then have s: "simple_add_step cfg text rid i ps = Inr ps"
      by (simp add: simple_add_step_def)
    from True have "?idx \<noteq> int k" for k by simp
    with Cons.IH[OF Cons.prems(1) js] s show ?thesis by simp
  next
    case False
    note r = ngram_index_in_range[OF i False]
    let ?ps1 = "ps[nat ?idx := insert rid (ps ! nat ?idx)]"
    from r Cons.prems(1) False have s: "simple_add_step cfg text rid i ps = Inr ?ps1"
      by (simp add: simple_add_step_def Let_def)
    have l1: "length ?ps1 = num_postings cfg" using Cons.prems(1) by simp
    from Cons.IH[OF l1 js] obtain ps' where
      f: "fold_err (simple_add_step cfg text rid) js ?ps1 = Inr ps'" and
      l: "length ps' = length ?ps1" and
      c: "\<forall>k<length ?ps1. ps' ! k = ?ps1 ! k \<union> set (map (\<lambda>i. rid)
                 (filter (\<lambda>i. ngram_to_index (ngram_at cfg text i) (char_to_int_map cfg) = int k) js))"
      by blast
    have e: "(?idx = int k) = (k = nat ?idx)" for k using r(1) by auto
    have "\<forall>k<length ps. ps' ! k = ps ! k \<union> set (map (\<lambda>i. rid)
                 (filter (\<lambda>i. ngram_to_index (ngram_at cfg text i) (char_to_int_map cfg) = int k) (i # js)))"
    proof (intro allI impI)
      fix k assume k: "k < length ps"
      with c have ck: "ps' ! k = ?ps1 ! k \<union> set (map (\<lambda>i. rid)
                 (filter (\<lambda>i. ngram_to_index (ngram_at cfg text i) (char_to_int_map cfg) = int k) js))"
        by simp
      show "ps' ! k = ps ! k \<union> set (map (\<lambda>i. rid)
                 (filter (\<lambda>i. ngram_to_index (ngram_at cfg text i) (char_to_int_map cfg) = int k) (i # js)))"
      proof (cases "k = nat ?idx")
        case True
        with ck k e[of k] show ?thesis by simp
      next
        case False
        with ck k e[of k] show ?thesis by simp
      qed
    qed
    with f l s show ?thesis by simp
  qed
qed

lemma impl_add_text_positional:
  assumes "length ps = num_postings cfg"
  shows "\<exists>ps'. impl_add_text cfg text rid (PositionalImpl ps) = Inr (PositionalImpl ps') \<and>
           length ps' = length ps \<and>
           (\<forall>k<length ps. ps' ! k =
              (fst (ps ! k) @ map fst (slot_entries cfg text rid k),
               snd (ps ! k) @ map snd (slot_entries cfg text rid k)))"
proof -
  from positional_fold[OF assms subset_refl, of "text" rid] obtain ps' where
    "fold_err (positional_add_step cfg text rid) (ngram_range cfg text) ps = Inr ps'"
    "length ps' = length ps"
    "\<forall>k<length ps. ps' ! k =
              (fst (ps ! k) @ map (\<lambda>i. rid)
                 (filter (\<lambda>i. ngram_to_index (ngram_at cfg text i) (char_to_int_map cfg) = int k)
                    (ngram_range cfg text)),
               snd (ps ! k) @ map int
                 (filter (\<lambda>i. ngram_to_index (ngram_at cfg text i) (char_to_int_map cfg) = int k)
                    (ngram_range cfg text)))"
    by blast
  then show ?thesis
    by (simp add: impl_add_text_def slot_entries_def comp_def)
qed

lemma impl_add_text_simple:
  assumes "length ps = num_postings cfg"
  shows "\<exists>ps'. impl_add_text cfg text rid (SimpleImpl ps) = Inr (SimpleImpl ps') \<and>
           length ps' = length ps \<and>
           (\<forall>k<length ps. ps' ! k = ps ! k \<union> set (map fst (slot_entries cfg text rid k)))"
proof -
  from simple_fold[OF assms subset_refl, of "text" rid] obtain ps' where
    "fold_err (simple_add_step cfg text rid) (ngram_range cfg text) ps = Inr ps'"
    "length ps' = length ps"
    "\<forall>k<length ps. ps' ! k = ps ! k \<union> set (map (\<lambda>i. rid)
                 (filter (\<lambda>i. ngram_to_index (ngram_at cfg text i) (char_to_int_map cfg) = int k)
                    (ngram_range cfg text)))"
    by blast
  then show ?thesis
    by (simp add: impl_add_text_def slot_entries_def comp_def)
qed

lemma writer_add_text_eq:
  assumes "normalize cfg \<longrightarrow> character_set cfg \<noteq> []"
  shows "TrigramWriter_add_text cfg tx rid impl = impl_add_text cfg (norm_text cfg tx) rid impl"
  using assms by (simp add: TrigramWriter_add_text_def compiled_normalize_regex_def norm_text_def)

lemma writer_add_text_error:
  assumes "normalize cfg" "character_set cfg = []"
  shows "TrigramWriter_add_text cfg text rid impl = Inl RegexError"
  using assms by (simp add: TrigramWriter_add_text_def compiled_normalize_regex_def)

lemma build_fold_positional:
  assumes "normalize cfg \<longrightarrow> character_set cfg \<noteq> []" "length ps = num_postings cfg"
  shows "\<exists>ps'. fold_err (\<lambda>(text, record_id). TrigramWriter_add_text cfg text record_id) adds
                 (PositionalImpl ps) = Inr (PositionalImpl ps') \<and>
           length ps' = length ps \<and>
           (\<forall>k<length ps. ps' ! k =
              (fst (ps ! k) @ map fst (build_entries cfg adds k),
               snd (ps ! k) @ map snd (build_entries cfg adds k)))"
  using assms(2)
proof (induction adds arbitrary: ps)
  case Nil
  then show ?case by (simp add: build_entries_def)
next
  case (Cons a adds)
  obtain tx rid where a: "a = (tx, rid)" by (cases a)
  from impl_add_text_positional[OF Cons.prems, of "norm_text cfg tx" rid] obtain ps1 where
    s: "impl_add_text cfg (norm_text cfg tx) rid (PositionalImpl ps) = Inr (PositionalImpl ps1)" and
    l: "length ps1 = length ps" and
    c: "\<forall>k<length ps. ps1 ! k =
              (fst (ps ! k) @ map fst (slot_entries cfg (norm_text cfg tx) rid k),
               snd (ps ! k) @ map snd (slot_entries cfg (norm_text cfg tx) rid k))"
    by blast
  from l Cons.prems have l1: "length ps1 = num_postings cfg" by simp
  from Cons.IH[OF l1] obtain ps' where
    f: "fold_err (\<lambda>(text, record_id). TrigramWriter_add_text cfg text record_id) adds
                 (PositionalImpl ps1) = Inr (PositionalImpl ps')" and
    l': "length ps' = length ps1" and
    c': "\<forall>k<length ps1. ps' ! k =
              (fst (ps1 ! k) @ map fst (build_entries cfg adds k),
               snd (ps1 ! k) @ map snd (build_entries cfg adds k))"
    by blast
  have "build_entries cfg (a # adds) k =
        slot_entries cfg (norm_text cfg tx) rid k @ build_entries cfg adds k" for k
    by (simp add: build_entries_def a)
  moreover have "TrigramWriter_add_text cfg tx rid (PositionalImpl ps) = Inr (PositionalImpl ps1)"
    using s by (simp only: writer_add_text_eq[OF assms(1)])
  ultimately show ?case using f l l' c c'
    by (simp add: a)
qed

lemma build_fold_simple:
  assumes "normalize cfg \<longrightarrow> character_set cfg \<noteq> []" "length ps = num_postings cfg"
  shows "\<exists>ps'. fold_err (\<lambda>(text, record_id). TrigramWriter_add_text cfg text record_id) adds
                 (SimpleImpl ps) = Inr (SimpleImpl ps') \<and>
           length ps' = length ps \<and>
           (\<forall>k<length ps. ps' ! k = ps ! k \<union> set (map fst (build_entries cfg adds k)))"
  using assms(2)
proof (induction adds arbitrary: ps)
  case Nil
  then show ?case by (simp add: build_entries_def)
next
  case (Cons a adds)
  obtain tx rid where a: "a = (tx, rid)" by (cases a)
  from impl_add_text_simple[OF Cons.prems, of "norm_text cfg tx" rid] obtain ps1 where
    s: "impl_add_text cfg (norm_text cfg tx) rid (SimpleImpl ps) = Inr (SimpleImpl ps1)" and
    l: "length ps1 = length ps" and
    c: "\<forall>k<length ps. ps1 ! k = ps ! k \<union> set (map fst (slot_entries cfg (norm_text cfg tx) rid k))"
    by blast
  from l Cons.prems have l1: "length ps1 = num_postings cfg" by simp
  from Cons.IH[OF l1] obtain ps' where
    f: "fold_err (\<lambda>(text, record_id). TrigramWriter_add_text cfg text record_id) adds
                 (SimpleImpl ps1) = Inr (SimpleImpl ps')" and
    l': "length ps' = length ps1" and
    c': "\<forall>k<length ps1. ps' ! k = ps1 ! k \<union> set (map fst (build_entries cfg adds k))"
    by blast
  have "build_entries cfg (a # adds) k =
        slot_entries cfg (norm_text cfg tx) rid k @ build_entries cfg adds k" for k
    by (simp add: build_entries_def a)
  moreover have "TrigramWriter_add_text cfg tx rid (SimpleImpl ps) = Inr (SimpleImpl ps1)"
    using s by (simp only: writer_add_text_eq[OF assms(1)])
  ultimately show ?case using f l l' c c'
    by (auto simp: a)
qed

subsection \<open>Trigram: the written index in closed form\<close>

lemma positional_posting_entries:
  "positional_posting (map fst es, map snd es) =
     new_PostingList (map fst (sort es)) (map snd (sort es))"
  by (simp add: positional_posting_def zip_strict_def zip_map_fst_snd Let_def)

lemma build_entries_Nil: "build_entries cfg [] k = []"
  by (simp add: build_entries_def)

lemma build_positional:
  assumes "store_positions cfg" "(normalize cfg \<longrightarrow> character_set cfg \<noteq> []) \<or> adds = []"
  shows "trigram_build cfg adds =
     Inr (PositionalImpl (map (\<lambda>k. (map fst (build_entries cfg adds k),
                                     map snd (build_entries cfg adds k))) [0..<num_postings cfg]))"
proof (cases "adds = []")
  case True
  have "replicate n ([], []) = map (\<lambda>k. ([], [])) [0..<n]" for n :: nat
    by (simp add: map_replicate_trivial)
  with True assms(1) show ?thesis
    by (simp add: trigram_build_def TrigramWriter_init_def build_entries_Nil)
next
  case False
  with assms(2) have n: "normalize cfg \<longrightarrow> character_set cfg \<noteq> []" by simp
  let ?ps = "replicate (num_postings cfg) ([] :: int list, [] :: int list)"
  have l: "length ?ps = num_postings cfg" by simp
  from build_fold_positional[OF n l, of adds] obtain ps' where
    f: "fold_err (\<lambda>(text, record_id). TrigramWriter_add_text cfg text record_id) adds
                 (PositionalImpl ?ps) = Inr (PositionalImpl ps')" and
    l': "length ps' = num_postings cfg" and
    c: "\<forall>k<num_postings cfg. ps' ! k =
              (map fst (build_entries cfg adds k), map snd (build_entries cfg adds k))"
    by auto
  have "ps' = map (\<lambda>k. (map fst (build_entries cfg adds k),
                         map snd (build_entries cfg adds k))) [0..<num_postings cfg]"
    using l' c by (intro nth_equalityI) auto
  with f assms(1) show ?thesis
    by (simp add: trigram_build_def TrigramWriter_init_def)
qed

lemma build_simple:
  assumes "\<not> store_positions cfg" "(normalize cfg \<longrightarrow> character_set cfg \<noteq> []) \<or> adds = []"
  shows "trigram_build cfg adds =
     Inr (SimpleImpl (map (\<lambda>k. fst ` set (build_entries cfg adds k)) [0..<num_postings cfg]))"
proof (cases "adds = []")
  case True
  have "replicate n {} = map (\<lambda>k. {}) [0..<n]" for n :: nat
    by (simp add: map_replicate_trivial)
  with True assms(1) show ?thesis
    by (simp add: trigram_build_def TrigramWriter_init_def build_entries_Nil)
next
  case False
  with assms(2) have n: "normalize cfg \<longrightarrow> character_set cfg \<noteq> []" by simp
  let ?ps = "replicate (num_postings cfg) ({} :: int set)"
  have l: "length ?ps = num_postings cfg" by simp
  from build_fold_simple[OF n l, of adds] obtain ps' where
    f: "fold_err (\<lambda>(text, record_id). TrigramWriter_add_text cfg text record_id) adds
                 (SimpleImpl ?ps) = Inr (SimpleImpl ps')" and
    l': "length ps' = num_postings cfg" and
    c: "\<forall>k<num_postings cfg. ps' ! k = fst ` set (build_entries cfg adds k)"
    by auto
  have "ps' = map (\<lambda>k. fst ` set (build_entries cfg adds k)) [0..<num_postings cfg]"
    using l' c by (intro nth_equalityI) auto
  with f assms(1) show ?thesis
    by (simp add: trigram_build_def TrigramWriter_init_def)
qed

lemma build_regex_error:
  assumes "normalize cfg" "character_set cfg = []" "adds \<noteq> []"
  shows "trigram_build cfg adds = Inl RegexError"
proof -
  from assms(3) obtain a rest where "adds = a # rest" by (cases adds) auto
  then show ?thesis
    by (cases a) (simp add: trigram_build_def writer_add_text_error[OF assms(1) assms(2)])
qed

lemma build_and_write_closed:
  "trigram_build_and_write cfg adds =
     (if normalize cfg \<and> character_set cfg = [] \<and> adds \<noteq> [] then Inl RegexError
      else TrigramWriter_write cfg
             (if store_positions cfg
              then PositionalImpl (map (\<lambda>k. (map fst (build_entries cfg adds k),
                                              map snd (build_entries cfg adds k)))
                                     [0..<num_postings cfg])
              else SimpleImpl (map (\<lambda>k. fst ` set (build_entries cfg adds k))
                                 [0..<num_postings cfg])))"
proof (cases "normalize cfg \<and> character_set cfg = [] \<and> adds \<noteq> []")
  case True
  then show ?thesis by (simp add: trigram_build_and_write_def build_regex_error)
next
  case False
  then have ok: "(normalize cfg \<longrightarrow> character_set cfg \<noteq> []) \<or> adds = []" by auto
  show ?thesis
  proof (cases "store_positions cfg")
    case True
    from False have "trigram_build_and_write cfg adds =
        TrigramWriter_write cfg
          (PositionalImpl (map (\<lambda>k. (map fst (build_entries cfg adds k),
                                          map snd (build_entries cfg adds k)))
                                 [0..<num_postings cfg]))"
      by (simp add: trigram_build_and_write_def build_positional[OF True ok])
    with True False show ?thesis by (simp only: if_True if_False)
  next
    case sp: False
    from False have "trigram_build_and_write cfg adds =
        TrigramWriter_write cfg
          (SimpleImpl (map (\<lambda>k. fst ` set (build_entries cfg adds k)) [0..<num_postings cfg]))"
      by (simp add: trigram_build_and_write_def build_simple[OF sp ok])
    with sp False show ?thesis by (simp only: if_True if_False)
  qed
qed

lemma write_positional_slots:
  "TrigramWriter_write cfg
     (PositionalImpl (map (\<lambda>k. (map fst (es k), map snd (es k))) ks)) =
   (case map_err (\<lambda>k. case new_PostingList (map fst (sort (es k))) (map snd (sort (es k))) of
                         Inl e \<Rightarrow> Inl e
                       | Inr message \<Rightarrow> maybe_delta_encode cfg message) ks of
      Inl e \<Rightarrow> Inl e
    | Inr messages \<Rightarrow> Inr \<lparr>postings = messages, trigram_descriptor = cfg\<rparr>)"
  by (simp add: TrigramWriter_write_def map_err_map positional_posting_entries)

lemma write_simple_slots:
  "TrigramWriter_write cfg (SimpleImpl (map (\<lambda>k. fst ` set (es k)) ks)) =
   (case map_err (\<lambda>k. case new_PostingList (sorted_list_of_set (fst ` set (es k))) [] of
                         Inl e \<Rightarrow> Inl e
                       | Inr message \<Rightarrow> maybe_delta_encode cfg message) ks of
      Inl e \<Rightarrow> Inl e
    | Inr messages \<Rightarrow> Inr \<lparr>postings = messages, trigram_descriptor = cfg\<rparr>)"
  by (simp add: TrigramWriter_write_def map_err_map simple_posting_def)

lemma build_entries_mset:
  assumes "mset adds1 = mset adds2"
  shows "mset (build_entries cfg adds1 k) = mset (build_entries cfg adds2 k)"
proof -
  have "mset (build_entries cfg adds k) =
        sum_mset (image_mset (\<lambda>(text, rid). mset (slot_entries cfg (norm_text cfg text) rid k))
                    (mset adds))" for adds
    by (induction adds) (auto simp: build_entries_def)
  with assms show ?thesis by simp
qed

lemma trigram_order_independent:
  assumes "mset adds1 = mset adds2"
  shows "trigram_build_and_write cfg adds1 = trigram_build_and_write cfg adds2"
proof -
  from assms have e: "(adds1 = []) = (adds2 = [])"
    by (metis mset_zero_iff)
  have s: "sort (build_entries cfg adds1 k) = sort (build_entries cfg adds2 k)" for k
    by (rule properties_for_sort) (simp_all add: build_entries_mset[OF assms])
  have t: "set (build_entries cfg adds1 k) = set (build_entries cfg adds2 k)" for k
    using build_entries_mset[OF assms, of cfg k] by (rule mset_eq_setD)
  show ?thesis
    unfolding build_and_write_closed e
    by (cases "store_positions cfg") (simp_all add: write_positional_slots write_simple_slots s t)
qed

subsection \<open>Trigram writer: posting invariants and order of additions\<close>

lemma simple_posting_strictly_ascending:
  "simple_posting s = Inr m \<Longrightarrow> sorted_wrt (<) (record_ids m)"
  by (auto simp: simple_posting_def new_PostingList_def split: if_splits)

lemma positional_posting_sorted:
  assumes "positional_posting p = Inr m"
  shows "length (record_ids m) = length (record_offsets m)"
    and "sorted (zip (record_ids m) (record_offsets m))"
  using assms
  by (auto simp: positional_posting_def zip_strict_def new_PostingList_def Let_def
        zip_map_fst_snd split: if_splits)

text \<open>
  Claim C4 (the code departs from it). With positions stored, the writer keeps every
  \<open>(record_id, offset)\<close> pair it was given: two \<open>add_text\<close> calls with the same text and
  record id leave the pair twice in the written posting list, so the pairs are ascending
  but not distinct. Here the 2-gram \<open>ab\<close> has index 1.
\<close>

theorem positional_writer_keeps_duplicate_pairs:
  "trigram_build_and_write example_trigram_config [(''ab'', 1), (''ab'', 1)] =
     Inr \<lparr>postings =
            [\<lparr>record_ids = [], record_offsets = []\<rparr>,
             \<lparr>record_ids = [1, 1], record_offsets = [0, 0]\<rparr>,
             \<lparr>record_ids = [], record_offsets = []\<rparr>,
             \<lparr>record_ids = [], record_offsets = []\<rparr>],
          trigram_descriptor = example_trigram_config\<rparr> \<and>
   \<not> distinct (zip [1, 1 :: int] [0, 0 :: int])"
  by code_simp

text \<open>
  Claim C9. The index a writer produces does not depend on the order of the additions:
  for the HashBucket writer and for the Trigram writer (both implementations), two
  sequences of calls that are permutations of each other give the same written file, or
  the same error.
\<close>

theorem writers_order_independent:
  "(mset adds1 = mset adds2 \<longrightarrow>
      HashBucketWriter_write hcfg (build adds1) = HashBucketWriter_write hcfg (build adds2)) \<and>
   (mset tadds1 = mset tadds2 \<longrightarrow>
      trigram_build_and_write tcfg tadds1 = trigram_build_and_write tcfg tadds2)"
proof (intro conjI impI)
  assume "mset adds1 = mset adds2"
  then have "set adds1 = set adds2" by (rule mset_eq_setD)
  then show "HashBucketWriter_write hcfg (build adds1) = HashBucketWriter_write hcfg (build adds2)"
    by (rule write_order_independent)
next
  assume "mset tadds1 = mset tadds2"
  then show "trigram_build_and_write tcfg tadds1 = trigram_build_and_write tcfg tadds2"
    by (rule trigram_order_independent)
qed

theorem writers_order_independent_witness:
  "HashBucketWriter_write example_config (build [(''a'', [1]), (''b'', [2]), (''a'', [3])]) =
   HashBucketWriter_write example_config (build [(''a'', [3]), (''a'', [1]), (''b'', [2])]) \<and>
   trigram_build_and_write example_trigram_config [(''ab'', 1), (''ba'', 2), (''ab'', 1)] =
   trigram_build_and_write example_trigram_config [(''ba'', 2), (''ab'', 1), (''ab'', 1)]"
proof -
  have h: "mset [(''a'', [1 :: int]), (''b'', [2]), (''a'', [3])] =
           mset [(''a'', [3]), (''a'', [1]), (''b'', [2])]"
    by simp
  have t: "mset [(''ab'', 1 :: int), (''ba'', 2), (''ab'', 1)] =
           mset [(''ba'', 2), (''ab'', 1), (''ab'', 1)]"
    by simp
  from writers_order_independent
         [of "[(''a'', [1]), (''b'', [2]), (''a'', [3])]" "[(''a'', [3]), (''a'', [1]), (''b'', [2])]"
             example_config
             "[(''ab'', 1), (''ba'', 2), (''ab'', 1)]" "[(''ba'', 2), (''ab'', 1), (''ab'', 1)]"
             example_trigram_config]
       h t
  show ?thesis by blast
qed

subsection \<open>Trigram: normalization\<close>

lemma regex_sub_inside_prefix:
  "regex_sub cs s =
     takeWhile (\<lambda>c. c \<in> set cs) s @ regex_sub cs (dropWhile (\<lambda>c. c \<in> set cs) s)"
  by (induction s) auto

lemma regex_sub_eq_spec: "regex_sub cs s = spec_replace_runs cs s"
proof (induction "length s" arbitrary: s rule: less_induct)
  case less
  show ?case
  proof (cases s)
    case Nil
    then show ?thesis by (simp add: spec_replace_runs_def)
  next
    case (Cons c rest)
    show ?thesis
    proof (cases "c \<in> set cs")
      case True
      have "length (dropWhile (\<lambda>y. y \<in> set cs) rest) < length s"
        using Cons length_dropWhile_le[of "\<lambda>y. y \<in> set cs" rest] by simp
      from less[OF this]
      have ih: "regex_sub cs (dropWhile (\<lambda>y. y \<in> set cs) rest) =
                spec_replace_runs cs (dropWhile (\<lambda>y. y \<in> set cs) rest)" .
      have "regex_sub cs s = c # regex_sub cs rest" using Cons True by simp
      also have "\<dots> = c # takeWhile (\<lambda>y. y \<in> set cs) rest @
                 regex_sub cs (dropWhile (\<lambda>y. y \<in> set cs) rest)"
        using regex_sub_inside_prefix[of cs rest] by simp
      also have "\<dots> = spec_replace_runs cs s"
        using Cons True ih by (simp add: spec_replace_runs_def)
      finally show ?thesis .
    next
      case False
      have "length (dropWhile (\<lambda>y. y \<notin> set cs) rest) < length s"
        using Cons length_dropWhile_le[of "\<lambda>y. y \<notin> set cs" rest] by simp
      from less[OF this]
      have ih: "regex_sub cs (dropWhile (\<lambda>y. y \<notin> set cs) rest) =
                spec_replace_runs cs (dropWhile (\<lambda>y. y \<notin> set cs) rest)" .
      with Cons False show ?thesis by (simp add: spec_replace_runs_def)
    qed
  qed
qed

lemma regex_sub_chars: "set (regex_sub cs s) \<subseteq> insert CHR '' '' (set cs)"
proof (induction cs s rule: regex_sub.induct)
  case (1 cs)
  then show ?case by simp
next
  case (2 cs c rest)
  then show ?case by auto
qed

lemma strip_spaces_only:
  assumes "\<forall>c\<in>set s. py_isspace c \<longrightarrow> c = CHR '' ''"
  shows "py_strip s = spec_strip_spaces s"
proof -
  have sp: "py_isspace CHR '' ''" by (simp add: py_isspace_def)
  have e: "x \<in> set s \<Longrightarrow> py_isspace x = (x = CHR '' '')" for x
    using assms sp by auto
  have a: "dropWhile py_isspace s = dropWhile (\<lambda>c. c = CHR '' '') s"
    by (rule dropWhile_cong) (simp_all add: e)
  have "x \<in> set (rev (dropWhile (\<lambda>c. c = CHR '' '') s)) \<Longrightarrow> x \<in> set s" for x
    using set_dropWhileD[of x "\<lambda>c. c = CHR '' ''" s] by simp
  then have b: "dropWhile py_isspace (rev (dropWhile (\<lambda>c. c = CHR '' '') s)) =
        dropWhile (\<lambda>c. c = CHR '' '') (rev (dropWhile (\<lambda>c. c = CHR '' '') s))"
    by (intro dropWhile_cong) (simp_all add: e)
  show ?thesis by (simp add: py_strip_def spec_strip_spaces_def a b)
qed

text \<open>
  Claim C7 as stated fails: \<open>str.strip()\<close> removes every leading and trailing whitespace
  character, not only spaces. With a tab in the character set the code turns the text
  tab, \<open>A\<close> into \<open>a\<close>, while stripping spaces only would keep the tab.
\<close>

theorem normalize_strips_whitespace_counterexample:
  "compiled_normalize_regex
     \<lparr>character_set = [CHR ''a'', CHR 0x09], ngram_size = 3, normalize = True,
      store_positions = False, delta_encode_record_ids = False\<rparr> = Inr [CHR ''a'', CHR 0x09] \<and>
   normalize_text [CHR 0x09, CHR ''A''] [CHR ''a'', CHR 0x09] = ''a'' \<and>
   spec_normalize [CHR ''a'', CHR 0x09] [CHR 0x09, CHR ''A''] = [CHR 0x09, CHR ''a''] \<and>
   normalize_text [CHR 0x09, CHR ''A''] [CHR ''a'', CHR 0x09] \<noteq>
     spec_normalize [CHR ''a'', CHR 0x09] [CHR 0x09, CHR ''A'']"
  by code_simp

text \<open>
  Claim C7, amended. For a nonempty character set the regex compiles, and normalization is:
  lowercase the text, replace each maximal run of characters outside the character set by
  one space, then strip leading and trailing whitespace; when the character set holds no
  whitespace character other than the space, this is stripping spaces. \<open>add_text\<close>
  and \<open>search\<close> apply it to their argument exactly when \<open>normalize\<close> is set.
\<close>

theorem normalization_characterised:
  assumes "character_set cfg \<noteq> []"
  shows "compiled_normalize_regex cfg = Inr (character_set cfg) \<and>
     normalize_text s (character_set cfg) =
       py_strip (spec_replace_runs (character_set cfg) (py_lower s)) \<and>
     ((\<forall>c\<in>set (character_set cfg). py_isspace c \<longrightarrow> c = CHR '' '') \<longrightarrow>
        normalize_text s (character_set cfg) = spec_normalize (character_set cfg) s) \<and>
     TrigramWriter_add_text cfg s rid impl =
       impl_add_text cfg (if normalize cfg then normalize_text s (character_set cfg) else s) rid impl \<and>
     TrigramReader_search cfg bag s =
       search_normalized cfg bag (if normalize cfg then normalize_text s (character_set cfg) else s)"
proof (intro conjI impI)
  show "compiled_normalize_regex cfg = Inr (character_set cfg)"
    using assms by (simp add: compiled_normalize_regex_def)
  show "normalize_text s (character_set cfg) =
       py_strip (spec_replace_runs (character_set cfg) (py_lower s))"
    by (simp add: normalize_text_def regex_sub_eq_spec)
  show "TrigramWriter_add_text cfg s rid impl =
       impl_add_text cfg (if normalize cfg then normalize_text s (character_set cfg) else s) rid impl"
    using assms by (simp add: TrigramWriter_add_text_def compiled_normalize_regex_def)
  show "TrigramReader_search cfg bag s =
       search_normalized cfg bag (if normalize cfg then normalize_text s (character_set cfg) else s)"
    using assms by (simp add: TrigramReader_search_def compiled_normalize_regex_def)
next
  assume w: "\<forall>c\<in>set (character_set cfg). py_isspace c \<longrightarrow> c = CHR '' ''"
  have "\<forall>c\<in>set (regex_sub (character_set cfg) (py_lower s)). py_isspace c \<longrightarrow> c = CHR '' ''"
    using regex_sub_chars[of "character_set cfg" "py_lower s"] w by auto
  from strip_spaces_only[OF this]
  show "normalize_text s (character_set cfg) = spec_normalize (character_set cfg) s"
    by (simp add: normalize_text_def spec_normalize_def regex_sub_eq_spec)
qed

theorem normalization_characterised_witness:
  "normalize_text ''Hello, World!'' ''abcdefghijklmnopqrstuvwxyz'' = ''hello world'' \<and>
   spec_normalize ''abcdefghijklmnopqrstuvwxyz'' ''Hello, World!'' = ''hello world''"
proof -
  let ?cfg = "\<lparr>character_set = ''abcdefghijklmnopqrstuvwxyz'', ngram_size = 3, normalize = True,
      store_positions = False, delta_encode_record_ids = False\<rparr>"
  have ne: "character_set ?cfg \<noteq> []" by simp
  have ws: "\<forall>c\<in>set (character_set ?cfg). py_isspace c \<longrightarrow> c = CHR '' ''"
    by (simp add: py_isspace_def)
  have v: "spec_normalize ''abcdefghijklmnopqrstuvwxyz'' ''Hello, World!'' = ''hello world''"
    by code_simp
  from normalization_characterised[OF ne, of "''Hello, World!''"] ws
  have "normalize_text ''Hello, World!'' (character_set ?cfg) =
        spec_normalize (character_set ?cfg) ''Hello, World!''" by blast
  with v show ?thesis by simp
qed

subsection \<open>Substrings and sliding windows\<close>

lemma is_substring_at:
  "is_substring q t = (\<exists>p. p + length q \<le> length t \<and> take (length q) (drop p t) = q)"
proof -
  have "(length q \<le> length t \<and> p < length t - length q + 1) = (p + length q \<le> length t)" for p
    by arith
  then have "(length q \<le> length t \<and> (\<exists>p. p < length t - length q + 1 \<and> take (length q) (drop p t) = q)) =
        (\<exists>p. p + length q \<le> length t \<and> take (length q) (drop p t) = q)"
    by blast
  moreover have "list_ex (\<lambda>p. take (length q) (drop p t) = q) [0..<length t - length q + 1] =
        (\<exists>p. p < length t - length q + 1 \<and> take (length q) (drop p t) = q)"
    unfolding list_ex_iff set_upt by (simp only: atLeastLessThan_iff Bex_def) blast
  ultimately show ?thesis unfolding is_substring_def by simp
qed

lemma is_substring_iff: "is_substring q t = (\<exists>ps ss. t = ps @ q @ ss)"
proof
  assume "is_substring q t"
  then obtain p where p: "take (length q) (drop p t) = q"
    unfolding is_substring_at by blast
  have "t = take p t @ take (length q) (drop p t) @ drop (length q) (drop p t)"
    by (metis append_take_drop_id)
  with p show "\<exists>ps ss. t = ps @ q @ ss" by metis
next
  assume "\<exists>ps ss. t = ps @ q @ ss"
  then obtain ps ss where t: "t = ps @ q @ ss" by blast
  then have "take (length q) (drop (length ps) t) = q" "length ps + length q \<le> length t" by auto
  then show "is_substring q t"
    unfolding is_substring_at by blast
qed

lemma windows_iff:
  assumes "0 < n" "n \<le> length q"
  shows "(\<forall>i < length q + 1 - n. p + i + n \<le> length t \<and>
            take n (drop (p + i) t) = take n (drop i q)) =
         (p + length q \<le> length t \<and> take (length q) (drop p t) = q)"
proof
  assume r: "p + length q \<le> length t \<and> take (length q) (drop p t) = q"
  show "\<forall>i < length q + 1 - n. p + i + n \<le> length t \<and>
            take n (drop (p + i) t) = take n (drop i q)"
  proof (intro allI impI)
    fix i assume i: "i < length q + 1 - n"
    then have b: "i + n \<le> length q" by simp
    have "take n (drop i q) = take n (drop i (take (length q) (drop p t)))" using r by simp
    also have "\<dots> = take n (drop (p + i) t)"
      using b by (simp add: drop_take min_def add.commute)
    finally show "p + i + n \<le> length t \<and> take n (drop (p + i) t) = take n (drop i q)"
      using r b by simp
  qed
next
  assume w: "\<forall>i < length q + 1 - n. p + i + n \<le> length t \<and>
            take n (drop (p + i) t) = take n (drop i q)"
  have last: "length q - n < length q + 1 - n" using assms by simp
  from w[rule_format, OF last] assms have len: "p + length q \<le> length t" by simp
  have "take (length q) (drop p t) = q"
  proof (rule nth_equalityI)
    show "length (take (length q) (drop p t)) = length q" using len by simp
  next
    fix x assume "x < length (take (length q) (drop p t))"
    then have x: "x < length q" by simp
    define i where "i = min x (length q - n)"
    define off where "off = x - i"
    have i: "i < length q + 1 - n" and o: "off < n" and xo: "x = i + off"
      using x assms by (auto simp: i_def off_def min_def)
    from w[rule_format, OF i] have e: "take n (drop (p + i) t) = take n (drop i q)"
      and b: "p + i + n \<le> length t" by auto
    have "take (length q) (drop p t) ! x = t ! (p + x)" using x len by simp
    also have "\<dots> = take n (drop (p + i) t) ! off" using o b xo by (simp add: add.assoc)
    also have "\<dots> = take n (drop i q) ! off" using e by simp
    also have "\<dots> = q ! x" using o xo x by simp
    finally show "take (length q) (drop p t) ! x = q ! x" .
  qed
  with len show "p + length q \<le> length t \<and> take (length q) (drop p t) = q" by simp
qed

subsection \<open>Trigram reader: the positional search loop\<close>

lemma get_record_ids_encoded:
  "maybe_delta_encode cfg p = Inr m \<Longrightarrow> list_all int64_ok (record_ids p) \<Longrightarrow>
   get_record_ids cfg m = Inr p"
  by (auto simp: get_record_ids_def maybe_delta_encode_def delta_decode_encoded split: if_splits)

lemma written_positional_slot:
  assumes w: "trigram_build_and_write cfg adds = Inr bag"
    and sp: "store_positions cfg"
  shows "length (postings bag) = num_postings cfg"
    and "trigram_descriptor bag = cfg"
    and "k < num_postings cfg \<Longrightarrow>
         get_record_ids cfg (postings bag ! k) =
           Inr \<lparr>record_ids = map fst (sort (build_entries cfg adds k)),
                record_offsets = map snd (sort (build_entries cfg adds k))\<rparr>"
proof -
  let ?F = "\<lambda>k. case new_PostingList (map fst (sort (build_entries cfg adds k)))
                               (map snd (sort (build_entries cfg adds k))) of
                  Inl e \<Rightarrow> Inl e
                | Inr message \<Rightarrow> maybe_delta_encode cfg message"
  from w sp have "(case map_err ?F [0..<num_postings cfg] of
      Inl e \<Rightarrow> Inl e
    | Inr messages \<Rightarrow> Inr \<lparr>postings = messages, trigram_descriptor = cfg\<rparr>) = Inr bag"
    by (simp add: build_and_write_closed write_positional_slots split: if_splits)
  then have m: "map_err ?F [0..<num_postings cfg] = Inr (postings bag)"
    and d: "trigram_descriptor bag = cfg"
    by (auto split: sum.splits)
  from m show "length (postings bag) = num_postings cfg"
    by (simp add: map_err_Inr_iff)
  from d show "trigram_descriptor bag = cfg" .
  assume k: "k < num_postings cfg"
  with m have fk: "?F k = Inr (postings bag ! k)"
    by (simp add: map_err_Inr_iff)
  then obtain p where
    p: "new_PostingList (map fst (sort (build_entries cfg adds k)))
                        (map snd (sort (build_entries cfg adds k))) = Inr p" and
    e: "maybe_delta_encode cfg p = Inr (postings bag ! k)"
    by (auto split: sum.splits)
  from p have pe: "p = \<lparr>record_ids = map fst (sort (build_entries cfg adds k)),
                record_offsets = map snd (sort (build_entries cfg adds k))\<rparr>"
    and ok: "list_all int64_ok (record_ids p)"
    by (auto simp: new_PostingList_def split: if_splits)
  from get_record_ids_encoded[OF e ok] pe
  show "get_record_ids cfg (postings bag ! k) =
           Inr \<lparr>record_ids = map fst (sort (build_entries cfg adds k)),
                record_offsets = map snd (sort (build_entries cfg adds k))\<rparr>"
    by simp
qed

lemma matcher_add_position:
  "matcher_add i \<lparr>record_ids = map fst es, record_offsets = map snd es\<rparr>
       (PositionNGramMatcher first M) =
     Inr (PositionNGramMatcher False
            (if first then (\<lambda>(rid, pos). (rid, pos - int i)) ` set es
             else M \<inter> (\<lambda>(rid, pos). (rid, pos - int i)) ` set es))"
  by (simp add: matcher_add_def zip_strict_def zip_map_fst_snd)

lemma search_step_position:
  assumes w: "trigram_build_and_write cfg adds = Inr bag"
    and sp: "store_positions cfg"
    and i: "i \<in> set (ngram_range cfg q)"
    and v: "set (ngram_at cfg q i) \<subseteq> set (effective_character_set cfg)"
  shows "ngram_to_index (ngram_at cfg q i) (char_to_int_map cfg) \<noteq> - 1"
    and "\<exists>message pl.
           bag_get bag (ngram_to_index (ngram_at cfg q i) (char_to_int_map cfg)) = Inr message \<and>
           get_record_ids cfg message = Inr pl \<and>
           matcher_add i pl (PositionNGramMatcher first M) =
             Inr (PositionNGramMatcher False
                    (if first then shifted_entries cfg adds q i
                     else M \<inter> shifted_entries cfg adds q i))"
proof -
  let ?idx = "ngram_to_index (ngram_at cfg q i) (char_to_int_map cfg)"
  let ?E = "build_entries cfg adds (nat ?idx)"
  from v show ne: "?idx \<noteq> - 1" by (simp add: ngram_index_valid_iff)
  note r = ngram_index_in_range[OF i ne]
  from r have k: "nat ?idx < num_postings cfg" and nn: "0 \<le> ?idx" by auto
  let ?pl = "\<lparr>record_ids = map fst (sort ?E), record_offsets = map snd (sort ?E)\<rparr>"
  from written_positional_slot(1)[OF w sp] k nn
  have g: "bag_get bag ?idx = Inr (postings bag ! nat ?idx)"
    by (simp add: bag_get_def)
  have gr: "get_record_ids cfg (postings bag ! nat ?idx) = Inr ?pl"
    by (rule written_positional_slot(3)[OF w sp k])
  have "matcher_add i ?pl (PositionNGramMatcher first M) =
        Inr (PositionNGramMatcher False
                    (if first then shifted_entries cfg adds q i
                     else M \<inter> shifted_entries cfg adds q i))"
    unfolding matcher_add_position
    by (simp add: shifted_entries_def)
  with g gr show "\<exists>message pl.
           bag_get bag ?idx = Inr message \<and>
           get_record_ids cfg message = Inr pl \<and>
           matcher_add i pl (PositionNGramMatcher first M) =
             Inr (PositionNGramMatcher False
                    (if first then shifted_entries cfg adds q i
                     else M \<inter> shifted_entries cfg adds q i))"
    by blast
qed

lemma search_loop_position:
  assumes w: "trigram_build_and_write cfg adds = Inr bag"
    and sp: "store_positions cfg"
  shows "\<forall>i\<in>set js. i \<in> set (ngram_range cfg q) \<and>
            set (ngram_at cfg q i) \<subseteq> set (effective_character_set cfg) \<Longrightarrow>
     search_loop cfg bag q js (PositionNGramMatcher False M) =
       Inr (sorted_list_of_set (fst ` (M \<inter> (\<Inter>i\<in>set js. shifted_entries cfg adds q i))))"
proof (induction js arbitrary: M)
  case Nil
  then show ?case by (simp add: matcher_record_ids_def)
next
  case (Cons i js)
  from Cons.prems have i: "i \<in> set (ngram_range cfg q)"
    and v: "set (ngram_at cfg q i) \<subseteq> set (effective_character_set cfg)"
    and rest: "\<forall>i\<in>set js. i \<in> set (ngram_range cfg q) \<and>
            set (ngram_at cfg q i) \<subseteq> set (effective_character_set cfg)" by auto
  note st1 = search_step_position(1)[OF w sp i v]
  note st2 = search_step_position(2)[OF w sp i v, of False M]
  from st2 obtain message pl where
    g: "bag_get bag (ngram_to_index (ngram_at cfg q i) (char_to_int_map cfg)) = Inr message" and
    gr: "get_record_ids cfg message = Inr pl" and
    a: "matcher_add i pl (PositionNGramMatcher False M) =
          Inr (PositionNGramMatcher False (M \<inter> shifted_entries cfg adds q i))"
    by auto
  show ?case
  proof (cases "M \<inter> shifted_entries cfg adds q i = {}")
    case True
    then have "M \<inter> (\<Inter>i\<in>set (i # js). shifted_entries cfg adds q i) = {}" by auto
    with True st1 g gr a show ?thesis
      by (simp add: no_remaining_matches_def)
  next
    case False
    have "M \<inter> shifted_entries cfg adds q i \<inter> (\<Inter>i\<in>set js. shifted_entries cfg adds q i) =
          M \<inter> (\<Inter>i\<in>set (i # js). shifted_entries cfg adds q i)" by auto
    with Cons.IH[OF rest, of "M \<inter> shifted_entries cfg adds q i"] False st1 g gr a
    show ?thesis
      by (simp add: no_remaining_matches_def)
  qed
qed

lemma search_normalized_position:
  assumes w: "trigram_build_and_write cfg adds = Inr bag"
    and sp: "store_positions cfg"
    and len: "ngram_size cfg \<le> length q"
    and v: "set q \<subseteq> set (effective_character_set cfg)"
  shows "search_normalized cfg bag q =
       Inr (sorted_list_of_set (fst ` (\<Inter>i\<in>set (ngram_range cfg q). shifted_entries cfg adds q i)))"
proof -
  let ?m = "length q + 1 - ngram_size cfg"
  from len have m: "0 < ?m" by simp
  then have r: "ngram_range cfg q = 0 # [1..<?m]"
    by (simp add: ngram_range_def upt_conv_Cons)
  have va: "set (ngram_at cfg q i) \<subseteq> set (effective_character_set cfg)" for i
    using v set_take_subset[of "ngram_size cfg" "drop i q"] set_drop_subset[of i q]
    by (auto simp: ngram_at_def)
  have all: "\<forall>i\<in>set [1..<?m]. i \<in> set (ngram_range cfg q) \<and>
            set (ngram_at cfg q i) \<subseteq> set (effective_character_set cfg)"
    using va by (auto simp: ngram_range_def)
  have z: "0 \<in> set (ngram_range cfg q)" using r by simp
  note st1 = search_step_position(1)[OF w sp z va[of 0]]
  note st2 = search_step_position(2)[OF w sp z va[of 0], of True "{}"]
  from st2 obtain message pl where
    g: "bag_get bag (ngram_to_index (ngram_at cfg q 0) (char_to_int_map cfg)) = Inr message" and
    gr: "get_record_ids cfg message = Inr pl" and
    a: "matcher_add 0 pl (PositionNGramMatcher True {}) =
          Inr (PositionNGramMatcher False (shifted_entries cfg adds q 0))"
    by auto
  have i: "(\<Inter>i\<in>set (ngram_range cfg q). shifted_entries cfg adds q i) =
        shifted_entries cfg adds q 0 \<inter> (\<Inter>i\<in>set [1..<?m]. shifted_entries cfg adds q i)"
    unfolding r by simp
  show ?thesis
  proof (cases "shifted_entries cfg adds q 0 = {}")
    case True
    with i have "(\<Inter>i\<in>set (ngram_range cfg q). shifted_entries cfg adds q i) = {}" by simp
    with True st1 g gr a len sp show ?thesis
      unfolding search_normalized_def r
      by (simp add: no_remaining_matches_def)
  next
    case False
    with search_loop_position[OF w sp all, of "shifted_entries cfg adds q 0"] st1 g gr a len sp
    show ?thesis
      unfolding search_normalized_def i unfolding r
      by (simp add: no_remaining_matches_def)
  qed
qed

subsection \<open>Trigram reader: surviving start positions are substring occurrences\<close>

lemma py_strip_subset: "set (py_strip s) \<subseteq> set s"
proof
  fix x assume "x \<in> set (py_strip s)"
  then have "x \<in> set (dropWhile py_isspace (rev (dropWhile py_isspace s)))"
    by (simp add: py_strip_def)
  then have "x \<in> set (rev (dropWhile py_isspace s))" by (rule set_dropWhileD)
  then have "x \<in> set (dropWhile py_isspace s)" by simp
  then show "x \<in> set s" by (rule set_dropWhileD)
qed

lemma normalized_chars:
  assumes "normalize cfg"
  shows "set (norm_text cfg s) \<subseteq> set (effective_character_set cfg)"
proof -
  have "set (norm_text cfg s) \<subseteq> set (regex_sub (character_set cfg) (py_lower s))"
    using assms py_strip_subset by (simp add: norm_text_def normalize_text_def)
  also have "\<dots> \<subseteq> insert CHR '' '' (set (character_set cfg))" by (rule regex_sub_chars)
  also have "\<dots> = set (effective_character_set cfg)"
    using assms by (simp add: effective_character_set_def)
  finally show ?thesis .
qed

lemma build_entries_mem:
  "((rid, pos) \<in> set (build_entries cfg adds k)) =
     (\<exists>t j. (t, rid) \<in> set adds \<and> j \<in> set (ngram_range cfg (norm_text cfg t)) \<and>
        ngram_to_index (ngram_at cfg (norm_text cfg t) j) (char_to_int_map cfg) = int k \<and>
        pos = int j)"
  by (auto simp: build_entries_def slot_entries_def)

lemma shifted_mem:
  assumes "0 \<le> ngram_to_index (ngram_at cfg q i) (char_to_int_map cfg)"
  shows "((rid, p) \<in> shifted_entries cfg adds q i) =
     (\<exists>t j. (t, rid) \<in> set adds \<and> j \<in> set (ngram_range cfg (norm_text cfg t)) \<and>
        ngram_to_index (ngram_at cfg (norm_text cfg t) j) (char_to_int_map cfg) =
          ngram_to_index (ngram_at cfg q i) (char_to_int_map cfg) \<and>
        p = int j - int i)"
proof -
  have "((rid, p) \<in> shifted_entries cfg adds q i) =
        (\<exists>pos. (rid, pos) \<in> set (build_entries cfg adds
              (nat (ngram_to_index (ngram_at cfg q i) (char_to_int_map cfg)))) \<and> p = pos - int i)"
    by (auto simp: shifted_entries_def)
  also have "\<dots> = (\<exists>t j. (t, rid) \<in> set adds \<and> j \<in> set (ngram_range cfg (norm_text cfg t)) \<and>
        ngram_to_index (ngram_at cfg (norm_text cfg t) j) (char_to_int_map cfg) =
          ngram_to_index (ngram_at cfg q i) (char_to_int_map cfg) \<and>
        p = int j - int i)"
    unfolding build_entries_mem using assms by auto
  finally show ?thesis .
qed

lemma ngram_at_valid:
  "set q \<subseteq> set (effective_character_set cfg) \<Longrightarrow>
   set (ngram_at cfg q i) \<subseteq> set (effective_character_set cfg)"
  using set_take_subset[of "ngram_size cfg" "drop i q"] set_drop_subset[of i q]
  by (auto simp: ngram_at_def)

lemma substring_in_shifted:
  assumes a: "(t, rid) \<in> set adds"
    and s: "p + length q \<le> length (norm_text cfg t)"
           "take (length q) (drop p (norm_text cfg t)) = q"
    and n: "0 < ngram_size cfg" "ngram_size cfg \<le> length q"
    and v: "set q \<subseteq> set (effective_character_set cfg)"
    and i: "i \<in> set (ngram_range cfg q)"
  shows "(rid, int p) \<in> shifted_entries cfg adds q i"
proof -
  from i have il: "i < length q + 1 - ngram_size cfg" by (simp add: ngram_range_def)
  from windows_iff[OF n, of p "norm_text cfg t"] s il
  have b: "p + i + ngram_size cfg \<le> length (norm_text cfg t)"
    and e: "take (ngram_size cfg) (drop (p + i) (norm_text cfg t)) = take (ngram_size cfg) (drop i q)"
    by auto
  have j: "p + i \<in> set (ngram_range cfg (norm_text cfg t))"
    using b by (simp add: ngram_range_def)
  have g: "ngram_at cfg (norm_text cfg t) (p + i) = ngram_at cfg q i"
    using e by (simp add: ngram_at_def)
  have nn: "0 \<le> ngram_to_index (ngram_at cfg q i) (char_to_int_map cfg)"
    using ngram_index_valid(1)[OF ngram_at_valid[OF v]] .
  show ?thesis
    unfolding shifted_mem[OF nn] using a j g by (intro exI[of _ t] exI[of _ "p + i"]) simp
qed

lemma shifted_all_substring:
  assumes d: "distinct (effective_character_set cfg)"
    and n: "0 < ngram_size cfg" "ngram_size cfg \<le> length q"
    and v: "set q \<subseteq> set (effective_character_set cfg)"
    and single: "\<forall>t1 t2. (t1, rid) \<in> set adds \<and> (t2, rid) \<in> set adds \<longrightarrow>
                   norm_text cfg t1 = norm_text cfg t2"
    and m: "\<forall>i\<in>set (ngram_range cfg q). (rid, p) \<in> shifted_entries cfg adds q i"
  shows "\<exists>t. (t, rid) \<in> set adds \<and> is_substring q (norm_text cfg t)"
proof -
  have nn: "0 \<le> ngram_to_index (ngram_at cfg q i) (char_to_int_map cfg)" for i
    using ngram_index_valid(1)[OF ngram_at_valid[OF v]] .
  have z: "0 \<in> set (ngram_range cfg q)" using n by (simp add: ngram_range_def)
  from m z have "(rid, p) \<in> shifted_entries cfg adds q 0" by blast
  then obtain t0 j0 where t0: "(t0, rid) \<in> set adds" and p0: "p = int j0"
    unfolding shifted_mem[OF nn] by auto
  define P where "P = nat p"
  from p0 have pP: "p = int P" by (simp add: P_def)
  let ?t = "norm_text cfg t0"
  have w: "\<forall>i < length q + 1 - ngram_size cfg. P + i + ngram_size cfg \<le> length ?t \<and>
            take (ngram_size cfg) (drop (P + i) ?t) = take (ngram_size cfg) (drop i q)"
  proof (intro allI impI)
    fix i assume il: "i < length q + 1 - ngram_size cfg"
    then have i: "i \<in> set (ngram_range cfg q)" by (simp add: ngram_range_def)
    with m have "(rid, p) \<in> shifted_entries cfg adds q i" by blast
    then obtain t j where t: "(t, rid) \<in> set adds"
      and j: "j \<in> set (ngram_range cfg (norm_text cfg t))"
      and e: "ngram_to_index (ngram_at cfg (norm_text cfg t) j) (char_to_int_map cfg) =
              ngram_to_index (ngram_at cfg q i) (char_to_int_map cfg)"
      and pj: "p = int j - int i"
      unfolding shifted_mem[OF nn] by auto
    from single t t0 have same: "norm_text cfg t = ?t" by blast
    from pj pP have jP: "j = P + i" by simp
    from j same jP have b: "P + i + ngram_size cfg \<le> length ?t"
      by (simp add: ngram_range_def)
    have l: "length (ngram_at cfg q i) = length (ngram_at cfg ?t (P + i))"
      using ngram_at_length[OF i] ngram_at_length[OF j] same jP by simp
    from ngram_index_inj[OF d l ngram_at_valid[OF v]] e same jP
    have "ngram_at cfg q i = ngram_at cfg ?t (P + i)" by simp
    with b show "P + i + ngram_size cfg \<le> length ?t \<and>
            take (ngram_size cfg) (drop (P + i) ?t) = take (ngram_size cfg) (drop i q)"
      by (simp add: ngram_at_def)
  qed
  from windows_iff[OF n, of P ?t] w
  have "P + length q \<le> length ?t \<and> take (length q) (drop P ?t) = q" by blast
  then have "is_substring q ?t" unfolding is_substring_at by blast
  with t0 show ?thesis by blast
qed

lemma matching_record_ids_mem:
  "(rid \<in> matching_record_ids cfg adds query) =
     (\<exists>t. (t, rid) \<in> set adds \<and> is_substring (norm_text cfg query) (norm_text cfg t))"
  by (auto simp: matching_record_ids_def) force

lemma surviving_start_positions_finite:
  assumes "0 < ngram_size cfg" "ngram_size cfg \<le> length q"
  shows "finite (\<Inter>i\<in>set (ngram_range cfg q). shifted_entries cfg adds q i)"
proof -
  from assms have z: "0 \<in> set (ngram_range cfg q)" by (simp add: ngram_range_def)
  have "finite (shifted_entries cfg adds q 0)" by (simp add: shifted_entries_def)
  moreover have "(\<Inter>i\<in>set (ngram_range cfg q). shifted_entries cfg adds q i) \<subseteq>
                 shifted_entries cfg adds q 0"
    using z by blast
  ultimately show ?thesis by (rule rev_finite_subset)
qed

lemma positional_matches_complete:
  assumes n: "0 < ngram_size cfg" "ngram_size cfg \<le> length (norm_text cfg query)"
    and v: "set (norm_text cfg query) \<subseteq> set (effective_character_set cfg)"
    and r: "rid \<in> matching_record_ids cfg adds query"
  shows "rid \<in> fst ` (\<Inter>i\<in>set (ngram_range cfg (norm_text cfg query)).
                   shifted_entries cfg adds (norm_text cfg query) i)"
proof -
  from r obtain t p where t: "(t, rid) \<in> set adds"
    and s: "p + length (norm_text cfg query) \<le> length (norm_text cfg t)"
           "take (length (norm_text cfg query)) (drop p (norm_text cfg t)) = norm_text cfg query"
    unfolding matching_record_ids_mem is_substring_at by blast
  have "(rid, int p) \<in> (\<Inter>i\<in>set (ngram_range cfg (norm_text cfg query)).
                   shifted_entries cfg adds (norm_text cfg query) i)"
    using substring_in_shifted[OF t s n v] by blast
  then show ?thesis by force
qed

lemma positional_matches_sound:
  assumes d: "distinct (effective_character_set cfg)"
    and n: "0 < ngram_size cfg" "ngram_size cfg \<le> length (norm_text cfg query)"
    and v: "set (norm_text cfg query) \<subseteq> set (effective_character_set cfg)"
    and single: "\<forall>t1 t2. (t1, rid) \<in> set adds \<and> (t2, rid) \<in> set adds \<longrightarrow>
                   norm_text cfg t1 = norm_text cfg t2"
    and r: "rid \<in> fst ` (\<Inter>i\<in>set (ngram_range cfg (norm_text cfg query)).
                   shifted_entries cfg adds (norm_text cfg query) i)"
  shows "rid \<in> matching_record_ids cfg adds query"
proof -
  from r obtain p where "\<forall>i\<in>set (ngram_range cfg (norm_text cfg query)).
      (rid, p) \<in> shifted_entries cfg adds (norm_text cfg query) i" by auto
  from shifted_all_substring[OF d n v single this]
  show ?thesis by (simp add: matching_record_ids_mem)
qed

subsection \<open>Trigram reader: positional search\<close>

lemma from_json_sorted:
  "sorted_wrt (<) (character_set cfg) \<Longrightarrow> TrigramConfig_from_json cfg = cfg"
  by (simp add: TrigramConfig_from_json_def sorted_list_of_set.idem_if_sorted_distinct
        strict_sorted_iff)

lemma sorted_map_fst:
  "sorted (xs :: ('a::linorder \<times> 'b::linorder) list) \<Longrightarrow> sorted (map fst xs)"
  by (induction xs) (auto simp: less_eq_prod_def)

lemma build_entries_bounds:
  assumes b: "\<forall>(t, rid)\<in>set adds. 0 \<le> rid \<and> int64_ok rid \<and>
                 int64_ok (int (length (norm_text cfg t)))"
    and m: "(rid, pos) \<in> set (build_entries cfg adds k)"
  shows "0 \<le> rid \<and> int64_ok rid \<and> int64_ok pos"
proof -
  from m obtain t j where t: "(t, rid) \<in> set adds"
    and j: "j \<in> set (ngram_range cfg (norm_text cfg t))" and p: "pos = int j"
    unfolding build_entries_mem by blast
  from j have "j \<le> length (norm_text cfg t)" by (auto simp: ngram_range_def)
  moreover from b t have r: "0 \<le> rid \<and> int64_ok rid"
    and "int64_ok (int (length (norm_text cfg t)))" by auto
  ultimately have "int64_ok (int j)" by (simp add: int64_ok_def)
  with r p show ?thesis by simp
qed

lemma written_message_succeeds:
  assumes "sorted ids" "list_all int64_ok ids" "\<forall>x\<in>set ids. 0 \<le> x" "list_all int64_ok offsets"
  shows "\<exists>m. (case new_PostingList ids offsets of
                 Inl e \<Rightarrow> Inl e
               | Inr message \<Rightarrow> maybe_delta_encode cfg message) = Inr m"
proof -
  let ?p = "\<lparr>record_ids = ids, record_offsets = offsets\<rparr>"
  from assms have n: "new_PostingList ids offsets = Inr ?p" by (simp add: new_PostingList_def)
  have "delta_representable (record_ids ?p)"
    using ascending_nonnegative_representable[OF assms(1) assms(2) assms(3)] by simp
  from delta_encode_succeeds[OF this] obtain e where "delta_encode ?p = Inr e" by blast
  then have "\<exists>m. maybe_delta_encode cfg ?p = Inr m" by (simp add: maybe_delta_encode_def)
  with n show ?thesis by simp
qed

lemma build_and_write_succeeds:
  assumes rx: "(normalize cfg \<longrightarrow> character_set cfg \<noteq> []) \<or> adds = []"
    and b: "\<forall>(t, rid)\<in>set adds. 0 \<le> rid \<and> int64_ok rid \<and>
                 int64_ok (int (length (norm_text cfg t)))"
  shows "\<exists>bag. trigram_build_and_write cfg adds = Inr bag"
proof (cases "store_positions cfg")
  case True
  let ?F = "\<lambda>k. case new_PostingList (map fst (sort (build_entries cfg adds k)))
                               (map snd (sort (build_entries cfg adds k))) of
                  Inl e \<Rightarrow> Inl e
                | Inr message \<Rightarrow> maybe_delta_encode cfg message"
  have "\<exists>m. ?F k = Inr m" for k
  proof (rule written_message_succeeds)
    let ?S = "sort (build_entries cfg adds k)"
    show "sorted (map fst ?S)" by (rule sorted_map_fst) simp
    show "list_all int64_ok (map fst ?S)"
      using build_entries_bounds[OF b, of _ _ k] by (auto simp: list_all_iff)
    show "\<forall>x\<in>set (map fst ?S). 0 \<le> x"
      using build_entries_bounds[OF b, of _ _ k] by auto
    show "list_all int64_ok (map snd ?S)"
      using build_entries_bounds[OF b, of _ _ k] by (auto simp: list_all_iff)
  qed
  then obtain ms where "map_err ?F [0..<num_postings cfg] = Inr ms"
    using map_err_succeeds[of "[0..<num_postings cfg]" ?F] by blast
  with True rx show ?thesis
    by (auto simp: build_and_write_closed write_positional_slots)
next
  case False
  let ?F = "\<lambda>k. case new_PostingList (sorted_list_of_set (fst ` set (build_entries cfg adds k))) [] of
                  Inl e \<Rightarrow> Inl e
                | Inr message \<Rightarrow> maybe_delta_encode cfg message"
  have "\<exists>m. ?F k = Inr m" for k
  proof (rule written_message_succeeds)
    let ?S = "sorted_list_of_set (fst ` set (build_entries cfg adds k))"
    show "sorted ?S" by simp
    show "list_all int64_ok ?S"
      using build_entries_bounds[OF b, of _ _ k] by (auto simp: list_all_iff)
    show "\<forall>x\<in>set ?S. 0 \<le> x"
      using build_entries_bounds[OF b, of _ _ k] by auto
    show "list_all int64_ok []" by simp
  qed
  then obtain ms where "map_err ?F [0..<num_postings cfg] = Inr ms"
    using map_err_succeeds[of "[0..<num_postings cfg]" ?F] by blast
  with False rx show ?thesis
    by (auto simp: build_and_write_closed write_simple_slots)
qed

lemma positional_search_result:
  assumes w: "trigram_build_and_write cfg adds = Inr bag"
    and sp: "store_positions cfg"
    and cs: "sorted_wrt (<) (character_set cfg)"
    and rx: "normalize cfg \<longrightarrow> character_set cfg \<noteq> []"
    and len: "ngram_size cfg \<le> length (norm_text cfg query)"
    and v: "set (norm_text cfg query) \<subseteq> set (effective_character_set cfg)"
  shows "make_reader_search bag query =
     Inr (sorted_list_of_set (fst ` (\<Inter>i\<in>set (ngram_range cfg (norm_text cfg query)).
                   shifted_entries cfg adds (norm_text cfg query) i)))"
proof -
  have "make_reader_search bag query = TrigramReader_search cfg bag query"
    by (simp add: make_reader_search_def written_positional_slot(2)[OF w sp] from_json_sorted[OF cs])
  also have "\<dots> = search_normalized cfg bag (norm_text cfg query)"
    using rx by (simp add: TrigramReader_search_def compiled_normalize_regex_def norm_text_def)
  also have "\<dots> = Inr (sorted_list_of_set (fst ` (\<Inter>i\<in>set (ngram_range cfg (norm_text cfg query)).
                   shifted_entries cfg adds (norm_text cfg query) i)))"
    by (rule search_normalized_position[OF w sp len v])
  finally show ?thesis .
qed

text \<open>
  Claim C2 as stated fails. Without normalization, n-grams of the query that contain a
  character outside the character set are skipped: the text \<open>ab ab\<close> contains the query
  \<open>b a\<close>, both n-grams of the query contain the space, and the search returns nothing.
\<close>

theorem positional_search_counterexample:
  "store_positions example_trigram_config \<and>
   ngram_size example_trigram_config \<le> length ''b a'' \<and>
   matching_record_ids example_trigram_config [(''ab ab'', 7)] ''b a'' = {7} \<and>
   (case trigram_build_and_write example_trigram_config [(''ab ab'', 7)] of
      Inl e \<Rightarrow> False
    | Inr bag \<Rightarrow> make_reader_search bag ''b a'' = Inr [])"
  by code_simp

text \<open>
  A record id indexed with two texts, as \<open>make_trigram_index\<close> does for a record with
  several indexed fields: the matcher keeps \<open>(record_id, start)\<close> pairs, so n-grams of
  different texts of one record combine. Neither \<open>abb\<close> nor \<open>bba\<close> contains \<open>aba\<close>,
  but the search returns the record, although the reader declares that its results need no
  post-filtering.
\<close>

lemma search_false_positive_across_texts:
  "\<not> requires_post_filtering example_trigram_config \<and>
   matching_record_ids example_trigram_config [(''abb'', 1), (''bba'', 1)] ''aba'' = {} \<and>
   (case trigram_build_and_write example_trigram_config [(''abb'', 1), (''bba'', 1)] of
      Inl e \<Rightarrow> False
    | Inr bag \<Rightarrow> make_reader_search bag ''aba'' = Inr [1])"
  by code_simp

text \<open>
  The writer numbers the characters in the order of its \<open>character_set\<close>, the reader in
  ascending order: an index written with the character set \<open>ba\<close> is read with \<open>ab\<close>, and
  the text \<open>ab\<close> is found under the query \<open>ba\<close> and not under \<open>ab\<close>. With a repeated
  character (\<open>abcc\<close>) the writer puts \<open>ac\<close> into the slot where the reader looks for
  \<open>ba\<close>. With n-grams of size zero every text matches every query.
\<close>

lemma search_unsorted_character_set:
  "matching_record_ids (example_trigram_config\<lparr>character_set := ''ba''\<rparr>) [(''ab'', 1)] ''ab'' = {1} \<and>
   matching_record_ids (example_trigram_config\<lparr>character_set := ''ba''\<rparr>) [(''ab'', 1)] ''ba'' = {} \<and>
   (case trigram_build_and_write (example_trigram_config\<lparr>character_set := ''ba''\<rparr>) [(''ab'', 1)] of
      Inl e \<Rightarrow> False
    | Inr bag \<Rightarrow> make_reader_search bag ''ab'' = Inr [] \<and> make_reader_search bag ''ba'' = Inr [1])"
  by code_simp

lemma search_false_positive_repeated_character:
  "matching_record_ids (example_trigram_config\<lparr>character_set := ''abcc''\<rparr>) [(''ac'', 1)] ''ba'' = {} \<and>
   (case trigram_build_and_write (example_trigram_config\<lparr>character_set := ''abcc''\<rparr>) [(''ac'', 1)] of
      Inl e \<Rightarrow> False
    | Inr bag \<Rightarrow> make_reader_search bag ''ba'' = Inr [1])"
  by code_simp

lemma search_false_positive_zero_ngram_size:
  "matching_record_ids (example_trigram_config\<lparr>ngram_size := 0\<rparr>) [(''b'', 1)] ''a'' = {} \<and>
   (case trigram_build_and_write (example_trigram_config\<lparr>ngram_size := 0\<rparr>) [(''b'', 1)] of
      Inl e \<Rightarrow> False
    | Inr bag \<Rightarrow> make_reader_search bag ''a'' = Inr [1])"
  by code_simp

text \<open>
  Claim C2, amended. Take a positional configuration with n-grams of positive size whose
  \<open>character_set\<close> is strictly ascending (as the reader parses it) and, when
  \<open>normalize\<close> is set, nonempty and without the space; and a query that after
  normalization has at least \<open>ngram_size\<close> characters and, when \<open>normalize\<close> is not
  set, only characters of the character set. Then for any sequence of \<open>add_text\<close>
  calls: the build and the write produce an index when the record ids are non-negative
  \<open>int64\<close> values (and the text lengths \<open>int64\<close> values); and on every index
  produced, the search of a reader made from the written file returns a strictly ascending
  list that contains every record id with an indexed text containing the query as
  searched, and in which every record id indexed with a single text (up to normalization)
  has that text containing the query. When every record id is indexed with a single text,
  the result is exactly the sorted list of the matching record ids.
\<close>

theorem positional_search_exact:
  assumes sp: "store_positions cfg"
    and n0: "0 < ngram_size cfg"
    and cs: "sorted_wrt (<) (character_set cfg)"
    and rx: "normalize cfg \<longrightarrow> character_set cfg \<noteq> [] \<and> CHR '' '' \<notin> set (character_set cfg)"
    and qv: "\<not> normalize cfg \<longrightarrow> set query \<subseteq> set (character_set cfg)"
    and len: "ngram_size cfg \<le> length (norm_text cfg query)"
  shows "((\<forall>(t, rid)\<in>set adds. 0 \<le> rid \<and> int64_ok rid \<and>
              int64_ok (int (length (norm_text cfg t)))) \<longrightarrow>
            (\<exists>bag. trigram_build_and_write cfg adds = Inr bag)) \<and>
         (\<forall>bag. trigram_build_and_write cfg adds = Inr bag \<longrightarrow>
            (\<exists>result. make_reader_search bag query = Inr result \<and>
               sorted_wrt (<) result \<and>
               matching_record_ids cfg adds query \<subseteq> set result \<and>
               (\<forall>rid\<in>set result.
                  (\<forall>t1 t2. (t1, rid) \<in> set adds \<and> (t2, rid) \<in> set adds \<longrightarrow>
                     norm_text cfg t1 = norm_text cfg t2) \<longrightarrow>
                  rid \<in> matching_record_ids cfg adds query) \<and>
               ((\<forall>(t1, r1)\<in>set adds. \<forall>(t2, r2)\<in>set adds.
                    r1 = r2 \<longrightarrow> norm_text cfg t1 = norm_text cfg t2) \<longrightarrow>
                  result = sorted_list_of_set (matching_record_ids cfg adds query))))"
proof (intro conjI allI impI)
  assume "\<forall>(t, rid)\<in>set adds. 0 \<le> rid \<and> int64_ok rid \<and>
              int64_ok (int (length (norm_text cfg t)))"
  with rx show "\<exists>bag. trigram_build_and_write cfg adds = Inr bag"
    by (intro build_and_write_succeeds) auto
next
  fix bag assume w: "trigram_build_and_write cfg adds = Inr bag"
  let ?q = "norm_text cfg query"
  let ?I = "\<Inter>i\<in>set (ngram_range cfg ?q). shifted_entries cfg adds ?q i"
  let ?R = "sorted_list_of_set (fst ` ?I)"
  from rx have rx': "normalize cfg \<longrightarrow> character_set cfg \<noteq> []" by simp
  have v: "set ?q \<subseteq> set (effective_character_set cfg)"
  proof (cases "normalize cfg")
    case True
    then show ?thesis by (rule normalized_chars)
  next
    case False
    with qv show ?thesis by (simp add: norm_text_def effective_character_set_def)
  qed
  have d: "distinct (effective_character_set cfg)"
    using cs rx by (auto simp: effective_character_set_def strict_sorted_iff)
  have fin: "finite (fst ` ?I)"
    using surviving_start_positions_finite[OF n0 len] by simp
  have res: "make_reader_search bag query = Inr ?R"
    by (rule positional_search_result[OF w sp cs rx' len v])
  have srt: "sorted_wrt (<) ?R"
    by (simp add: strict_sorted_iff)
  have st: "set ?R = fst ` ?I" using fin by simp
  have cmp: "matching_record_ids cfg adds query \<subseteq> set ?R"
    unfolding st using positional_matches_complete[OF n0 len v] by blast
  have snd: "\<forall>rid\<in>set ?R.
                  (\<forall>t1 t2. (t1, rid) \<in> set adds \<and> (t2, rid) \<in> set adds \<longrightarrow>
                     norm_text cfg t1 = norm_text cfg t2) \<longrightarrow>
                  rid \<in> matching_record_ids cfg adds query"
    unfolding st using positional_matches_sound[OF d n0 len v] by blast
  have ex: "(\<forall>(t1, r1)\<in>set adds. \<forall>(t2, r2)\<in>set adds.
                    r1 = r2 \<longrightarrow> norm_text cfg t1 = norm_text cfg t2) \<longrightarrow>
                  ?R = sorted_list_of_set (matching_record_ids cfg adds query)"
  proof
    assume u: "\<forall>(t1, r1)\<in>set adds. \<forall>(t2, r2)\<in>set adds.
                    r1 = r2 \<longrightarrow> norm_text cfg t1 = norm_text cfg t2"
    have "fst ` ?I = matching_record_ids cfg adds query"
    proof (intro set_eqI iffI)
      fix rid assume r: "rid \<in> fst ` ?I"
      from u have "\<forall>t1 t2. (t1, rid) \<in> set adds \<and> (t2, rid) \<in> set adds \<longrightarrow>
                     norm_text cfg t1 = norm_text cfg t2" by blast
      from positional_matches_sound[OF d n0 len v this r]
      show "rid \<in> matching_record_ids cfg adds query" .
    next
      fix rid assume "rid \<in> matching_record_ids cfg adds query"
      then show "rid \<in> fst ` ?I" by (rule positional_matches_complete[OF n0 len v])
    qed
    then show "?R = sorted_list_of_set (matching_record_ids cfg adds query)" by simp
  qed
  from res srt cmp snd ex
  show "\<exists>result. make_reader_search bag query = Inr result \<and>
               sorted_wrt (<) result \<and>
               matching_record_ids cfg adds query \<subseteq> set result \<and>
               (\<forall>rid\<in>set result.
                  (\<forall>t1 t2. (t1, rid) \<in> set adds \<and> (t2, rid) \<in> set adds \<longrightarrow>
                     norm_text cfg t1 = norm_text cfg t2) \<longrightarrow>
                  rid \<in> matching_record_ids cfg adds query) \<and>
               ((\<forall>(t1, r1)\<in>set adds. \<forall>(t2, r2)\<in>set adds.
                    r1 = r2 \<longrightarrow> norm_text cfg t1 = norm_text cfg t2) \<longrightarrow>
                  result = sorted_list_of_set (matching_record_ids cfg adds query))"
    by blast
qed

theorem positional_search_exact_witness:
  "\<exists>bag. trigram_build_and_write positional_trigram_config test_docs = Inr bag \<and>
     make_reader_search bag ''search'' = Inr [5] \<and>
     make_reader_search bag ''world'' = Inr [0, 1, 3] \<and>
     make_reader_search bag ''ld of w'' = Inr [1] \<and>
     make_reader_search bag ''xyzxyz'' = Inr []"
proof -
  let ?c = positional_trigram_config
  have sp: "store_positions ?c" and n0: "0 < ngram_size ?c"
    and rx: "normalize ?c \<longrightarrow> character_set ?c \<noteq> [] \<and> CHR '' '' \<notin> set (character_set ?c)"
    and qv: "\<not> normalize ?c \<longrightarrow> set q \<subseteq> set (character_set ?c)" for q
    by (simp_all add: positional_trigram_config_def)
  have cs: "sorted_wrt (<) (character_set ?c)" by code_simp
  have b: "\<forall>(t, rid)\<in>set test_docs. 0 \<le> rid \<and> int64_ok rid \<and>
              int64_ok (int (length (norm_text ?c t)))"
    by code_simp
  have uniq: "\<forall>(t1, r1)\<in>set test_docs. \<forall>(t2, r2)\<in>set test_docs.
                r1 = r2 \<longrightarrow> norm_text ?c t1 = norm_text ?c t2"
    by (simp add: test_docs_def)
  have l1: "ngram_size ?c \<le> length (norm_text ?c ''search'')" by code_simp
  have l2: "ngram_size ?c \<le> length (norm_text ?c ''world'')" by code_simp
  have l3: "ngram_size ?c \<le> length (norm_text ?c ''ld of w'')" by code_simp
  have l4: "ngram_size ?c \<le> length (norm_text ?c ''xyzxyz'')" by code_simp
  have m1: "sorted_list_of_set (matching_record_ids ?c test_docs ''search'') = [5]" by code_simp
  have m2: "sorted_list_of_set (matching_record_ids ?c test_docs ''world'') = [0, 1, 3]" by code_simp
  have m3: "sorted_list_of_set (matching_record_ids ?c test_docs ''ld of w'') = [1]" by code_simp
  have m4: "sorted_list_of_set (matching_record_ids ?c test_docs ''xyzxyz'') = []" by code_simp
  from positional_search_exact[OF sp n0 cs rx qv l1, of test_docs] b obtain bag where
    w: "trigram_build_and_write ?c test_docs = Inr bag"
    by blast
  from positional_search_exact[OF sp n0 cs rx qv l1, of test_docs] w uniq
  have s1: "make_reader_search bag ''search'' =
           Inr (sorted_list_of_set (matching_record_ids ?c test_docs ''search''))"
    by blast
  from positional_search_exact[OF sp n0 cs rx qv l2, of test_docs] w uniq
  have s2: "make_reader_search bag ''world'' =
           Inr (sorted_list_of_set (matching_record_ids ?c test_docs ''world''))"
    by blast
  from positional_search_exact[OF sp n0 cs rx qv l3, of test_docs] w uniq
  have s3: "make_reader_search bag ''ld of w'' =
           Inr (sorted_list_of_set (matching_record_ids ?c test_docs ''ld of w''))"
    by blast
  from positional_search_exact[OF sp n0 cs rx qv l4, of test_docs] w uniq
  have s4: "make_reader_search bag ''xyzxyz'' =
           Inr (sorted_list_of_set (matching_record_ids ?c test_docs ''xyzxyz''))"
    by blast
  from w s1 s2 s3 s4 show ?thesis unfolding m1 m2 m3 m4 by blast
qed

subsection \<open>Merging and the sharded build driver\<close>

lemma all_equal_head:
  "configs \<noteq> [] \<Longrightarrow>
   list_all (\<lambda>config. config = hd configs) (tl configs) = (\<forall>c\<in>set configs. c = hd configs)"
  by (cases configs) (auto simp: list_all_iff)

text \<open>
  Claim C5. \<open>merge_indices\<close> raises on an empty list of inputs; when the descriptors of
  the inputs are read, it raises unless they are all equal, and otherwise it is the call of
  the merger made from the shared configuration; an error reading a descriptor propagates.
  In every error case the file system is left as it was.
\<close>

theorem merge_indices_checks:
  "merge_indices env [] output w = (Some ValueError, w) \<and>
   (input_paths \<noteq> [] \<and> length configs = length input_paths \<and>
    (\<forall>i<length input_paths. config_from_bagz env w (input_paths ! i) = Inr (configs ! i)) \<longrightarrow>
      merge_indices env input_paths output w =
        (if \<forall>c\<in>set configs. c = hd configs
         then env_merger env (hd configs) input_paths output w
         else (Some ValueError, w))) \<and>
   (map_err (config_from_bagz env w) input_paths = Inl e \<longrightarrow>
      merge_indices env input_paths output w =
        (if input_paths = [] then (Some ValueError, w) else (Some e, w)))"
proof (intro conjI impI)
  show "merge_indices env [] output w = (Some ValueError, w)"
    by (simp add: merge_indices_def)
next
  assume a: "input_paths \<noteq> [] \<and> length configs = length input_paths \<and>
    (\<forall>i<length input_paths. config_from_bagz env w (input_paths ! i) = Inr (configs ! i))"
  then have m: "map_err (config_from_bagz env w) input_paths = Inr configs"
    by (simp add: map_err_Inr_iff)
  from a have "configs \<noteq> []" by auto
  from all_equal_head[OF this] a m
  show "merge_indices env input_paths output w =
        (if \<forall>c\<in>set configs. c = hd configs
         then env_merger env (hd configs) input_paths output w
         else (Some ValueError, w))"
    by (simp add: merge_indices_def)
next
  assume "map_err (config_from_bagz env w) input_paths = Inl e"
  then show "merge_indices env input_paths output w =
        (if input_paths = [] then (Some ValueError, w) else (Some e, w))"
    by (simp add: merge_indices_def)
qed

theorem merge_indices_checks_witness:
  "merge_indices example_env [] (File ''o'') example_world = (Some ValueError, example_world) \<and>
   merge_indices example_env [File ''a'', File ''c''] (File ''o'') example_world =
     (Some ValueError, example_world) \<and>
   merge_indices example_env [File ''a'', File ''b''] (File ''o'') example_world =
     (None, example_world\<lparr>files := (files example_world)(File ''o'' \<mapsto> [7])\<rparr>) \<and>
   merge_indices example_env [File ''a'', File ''x''] (File ''o'') example_world =
     (Some IOError, example_world)"
proof -
  have c: "config_from_bagz example_env example_world (File ''a'') = Inr 7"
    "config_from_bagz example_env example_world (File ''b'') = Inr 7"
    "config_from_bagz example_env example_world (File ''c'') = Inr 9"
    "config_from_bagz example_env example_world (File ''x'') = Inl IOError"
    by (simp_all add: config_from_bagz_def example_env_def example_world_def)
  have h1: "[File ''a'', File ''c''] \<noteq> [] \<and> length [7, 9 :: nat] = length [File ''a'', File ''c''] \<and>
    (\<forall>i<length [File ''a'', File ''c'']. config_from_bagz example_env example_world ([File ''a'', File ''c''] ! i) =
        Inr ([7, 9] ! i))"
    using c by (auto simp: less_Suc_eq)
  have h2: "[File ''a'', File ''b''] \<noteq> [] \<and> length [7, 7 :: nat] = length [File ''a'', File ''b''] \<and>
    (\<forall>i<length [File ''a'', File ''b'']. config_from_bagz example_env example_world ([File ''a'', File ''b''] ! i) =
        Inr ([7, 7] ! i))"
    using c by (auto simp: less_Suc_eq)
  have h3: "map_err (config_from_bagz example_env example_world) [File ''a'', File ''x''] = Inl IOError"
    using c by simp
  note t = merge_indices_checks[of example_env "File ''o''" example_world]
  from t[of "[]" "[]" IOError]
  have r0: "merge_indices example_env [] (File ''o'') example_world = (Some ValueError, example_world)"
    by blast
  from t[of "[File ''a'', File ''c'']" "[7, 9]" IOError] h1
  have r1: "merge_indices example_env [File ''a'', File ''c''] (File ''o'') example_world =
     (Some ValueError, example_world)" by simp
  from t[of "[File ''a'', File ''b'']" "[7, 7]" IOError] h2
  have r2: "merge_indices example_env [File ''a'', File ''b''] (File ''o'') example_world =
     (None, example_world\<lparr>files := (files example_world)(File ''o'' \<mapsto> [7])\<rparr>)"
    by (simp add: example_env_def)
  from t[of "[File ''a'', File ''x'']" "[]" IOError] h3
  have r3: "merge_indices example_env [File ''a'', File ''x''] (File ''o'') example_world =
     (Some IOError, example_world)" by simp
  from r0 r1 r2 r3 show ?thesis by blast
qed

lemma inv_new_shard_writer:
  assumes "builder_inv w0 b w" "current_writer b = None" "new_shard_writer env b = (r, b1)"
  shows "builder_inv w0 b1 w \<and> current_writer b1 = None \<and> last (shard_paths b1) \<noteq> Shard 0"
  using assms
  by (auto simp: builder_inv_def new_shard_writer_def Let_def split: sum.splits if_splits)

lemma inv_get_current_writer:
  assumes "builder_inv w0 b w" "get_current_writer env b = (r, b1)"
  shows "builder_inv w0 b1 w"
proof (cases "current_writer b")
  case None
  obtain r' b' where n: "new_shard_writer env b = (r', b')" by (cases "new_shard_writer env b")
  from inv_new_shard_writer[OF assms(1) None n]
  have i: "builder_inv w0 b' w" "last (shard_paths b') \<noteq> Shard 0" by auto
  show ?thesis
  proof (cases r')
    case (Inl e)
    with assms(2) None n i show ?thesis by (simp add: get_current_writer_def)
  next
    case (Inr writer)
    with assms(2) None n have "b1 = b'\<lparr>current_writer := Some writer\<rparr>"
      by (simp add: get_current_writer_def)
    with i show ?thesis by (simp add: builder_inv_def)
  qed
next
  case (Some writer)
  with assms show ?thesis by (simp add: get_current_writer_def)
qed

lemma inv_write_current_shard:
  assumes "builder_inv w0 b w" "write_current_shard env b w = (e, b1, w1)"
  shows "builder_inv w0 b1 w1"
proof (cases "current_writer b")
  case None
  with assms show ?thesis by (simp add: write_current_shard_def)
next
  case (Some writer)
  from assms(1) have ne: "shard_paths b \<noteq> []" and l0: "last (shard_paths b) \<noteq> Shard 0"
    and sh: "list_all (\<lambda>p. case p of Shard k \<Rightarrow> True | File fname \<Rightarrow> False) (shard_paths b)"
    using Some by (auto simp: builder_inv_def)
  from sh ne have "case last (shard_paths b) of Shard k \<Rightarrow> True | File fname \<Rightarrow> False"
    by (simp add: list_all_iff)
  then have nf: "last (shard_paths b) \<noteq> File fname" "File fname \<noteq> last (shard_paths b)" for fname
    by (auto split: path.splits)
  show ?thesis
  proof (cases "env_write env writer")
    case (Inl err)
    with assms Some ne show ?thesis by (simp add: write_current_shard_def)
  next
    case (Inr entries)
    with assms(2) Some ne have
      "b1 = b\<lparr>current_writer := None\<rparr>"
      "w1 = w\<lparr>files := (files w)(last (shard_paths b) \<mapsto> entries)\<rparr>"
      by (simp_all add: write_current_shard_def)
    with assms(1) l0 nf show ?thesis by (auto simp: builder_inv_def)
  qed
qed

lemma inv_record_added:
  assumes "builder_inv w0 b w" "record_added env b w = (e, b1, w1)"
  shows "builder_inv w0 b1 w1"
proof -
  let ?b = "b\<lparr>current_shard_record_count := current_shard_record_count b + 1\<rparr>"
  from assms(1) have i: "builder_inv w0 ?b w" by (simp add: builder_inv_def)
  show ?thesis
  proof (cases "current_shard_record_count ?b \<ge> shard_limit ?b")
    case True
    with assms(2) have "write_current_shard env ?b w = (e, b1, w1)"
      by (simp add: record_added_def Let_def)
    from inv_write_current_shard[OF i this] show ?thesis .
  next
    case False
    with assms(2) i show ?thesis by (simp add: record_added_def Let_def)
  qed
qed

lemma inv_add_record:
  assumes "builder_inv w0 b w" "add_record env r b w = (e, b1, w1)"
  shows "builder_inv w0 b1 w1"
proof -
  obtain g b' where g: "get_current_writer env b = (g, b')" by (cases "get_current_writer env b")
  note i = inv_get_current_writer[OF assms(1) g]
  show ?thesis
  proof (cases g)
    case (Inl err)
    with assms(2) g i show ?thesis by (simp add: add_record_def)
  next
    case (Inr writer)
    have cw: "current_writer b' \<noteq> None"
      using g Inr by (auto simp: get_current_writer_def split: option.splits prod.splits sum.splits)
    show ?thesis
    proof (cases "env_add env r writer")
      case (Inl err)
      with assms(2) g Inr i show ?thesis by (simp add: add_record_def)
    next
      case inr: (Inr writer')
      from i cw have i': "builder_inv w0 (b'\<lparr>current_writer := Some writer'\<rparr>) w"
        by (simp add: builder_inv_def)
      from assms(2) g Inr inr
      have "record_added env (b'\<lparr>current_writer := Some writer'\<rparr>) w = (e, b1, w1)"
        by (simp add: add_record_def)
      from inv_record_added[OF i' this] show ?thesis .
    qed
  qed
qed

lemma inv_add_records:
  "builder_inv w0 b w \<Longrightarrow> add_records env rs b w = (e, b1, w1) \<Longrightarrow> builder_inv w0 b1 w1"
proof (induction rs arbitrary: b w)
  case Nil
  then show ?case by simp
next
  case (Cons r rs)
  obtain e' b' w' where a: "add_record env r b w = (e', b', w')"
    by (cases "add_record env r b w") auto
  note i = inv_add_record[OF Cons.prems(1) a]
  show ?case
  proof (cases e')
    case None
    with Cons.prems(2) a have "add_records env rs b' w' = (e, b1, w1)" by simp
    from Cons.IH[OF i this] show ?thesis .
  next
    case (Some err)
    with Cons.prems(2) a i show ?thesis by simp
  qed
qed

lemma enter_cases:
  "(\<exists>e b1 w1. builder_enter env (init_builder output limit) w = (Some e, b1, w1) \<and>
       temp_dir_exists w1 \<and> (\<forall>fname. files w1 (File fname) = files w (File fname))) \<or>
   (\<exists>b1 w1. builder_enter env (init_builder output limit) w = (None, b1, w1) \<and>
       builder_inv w b1 w1)"
  by (cases "env_make_writer env")
     (auto simp: builder_enter_def new_shard_writer_def init_builder_def builder_inv_def Let_def)

lemma exit_raises:
  assumes "builder_inv w0 b w"
  shows "\<exists>e b1 w1. builder_exit env b w = (Some e, b1, w1) \<and> temp_dir_exists w1 \<and>
           (\<forall>fname. files w1 (File fname) = files w0 (File fname))"
proof -
  obtain e' b' w' where ws: "write_current_shard env b w = (e', b', w')"
    by (cases "write_current_shard env b w") auto
  note i = inv_write_current_shard[OF assms ws]
  show ?thesis
  proof (cases e')
    case (Some err)
    with ws i show ?thesis by (simp add: builder_exit_def builder_inv_def)
  next
    case None
    from i have ne: "shard_paths b' \<noteq> []" and h: "hd (shard_paths b') = Shard 0"
      and f: "files w' (Shard 0) = None" and t: "has_temp_dir b'"
      by (auto simp: builder_inv_def)
    have "config_from_bagz env w' (hd (shard_paths b')) = Inl IOError"
      using h f by (simp add: config_from_bagz_def)
    from map_err_first_error[where f="config_from_bagz env w'" and xs="shard_paths b'", OF ne this] ne
    have "merge_indices env (shard_paths b') (output_bagz_path b') w' = (Some IOError, w')"
      by (simp add: merge_indices_def)
    with None ws ne t i show ?thesis by (simp add: builder_exit_def builder_inv_def)
  qed
qed

text \<open>
  Claim C3 (the code departs from it). \<open>__enter__\<close> registers the path of shard 0 but
  drops the writer made for it, so no file is ever written for shard 0; the first record
  makes a second writer, for shard 1. On exit \<open>merge_indices\<close> is called with all
  registered paths, fails to open shard 0, and raises before the merger runs and before
  the cleanup stack is closed. So every build, with any records or none, ends in an error,
  leaves every file outside the temporary directory (the output among them) as it was, and
  leaves the temporary directory in place.
\<close>

theorem sharded_build_always_raises:
  "\<exists>e w'. sharded_build env output limit records w = (Some e, w') \<and>
           temp_dir_exists w' \<and>
           (\<forall>fname. files w' (File fname) = files w (File fname))"
proof -
  from enter_cases[of env "output" limit w] show ?thesis
  proof (elim disjE exE conjE)
    fix e b1 w1
    assume "builder_enter env (init_builder output limit) w = (Some e, b1, w1)"
      "temp_dir_exists w1" "\<forall>fname. files w1 (File fname) = files w (File fname)"
    then show ?thesis by (simp add: sharded_build_def)
  next
    fix b1 w1
    assume en: "builder_enter env (init_builder output limit) w = (None, b1, w1)"
      and i: "builder_inv w b1 w1"
    obtain be b2 w2 where a: "add_records env records b1 w1 = (be, b2, w2)"
      by (cases "add_records env records b1 w1") auto
    from exit_raises[OF inv_add_records[OF i a], of env] obtain e b3 w3 where
      "builder_exit env b2 w2 = (Some e, b3, w3)" "temp_dir_exists w3"
      "\<forall>fname. files w3 (File fname) = files w (File fname)" by blast
    with en a show ?thesis by (simp add: sharded_build_def)
  qed
qed

theorem sharded_build_always_raises_witness:
  "\<exists>e w'. sharded_build (hashbucket_env example_config (\<lambda>c input_paths output_path w. (None, w)))
             (File ''out.bagz'') 200000 [] \<lparr>files = Map.empty, temp_dir_exists = False\<rparr> = (Some e, w') \<and>
           temp_dir_exists w' \<and> files w' (File ''out.bagz'') = None"
  using sharded_build_always_raises
          [of "hashbucket_env example_config (\<lambda>c input_paths output_path w. (None, w))"
              "File ''out.bagz''" 200000 "[]" "\<lparr>files = Map.empty, temp_dir_exists = False\<rparr>"]
  by (simp only: world.simps) blast

text \<open>
  With no record added the error is the failure to open shard 0; with one record added,
  the file of shard 1 is written and the error is the same.
\<close>

lemma sharded_build_zero_records:
  "fst (sharded_build (hashbucket_env cfg merger) (File ''out.bagz'') 200000 [] w) = Some IOError"
  by (simp add: sharded_build_def builder_enter_def init_builder_def new_shard_writer_def
        hashbucket_env_def builder_exit_def write_current_shard_def merge_indices_def
        config_from_bagz_def Let_def)

lemma sharded_build_one_record:
  assumes "bucket_quotient cfg 1 = Inr q"
  shows "fst (sharded_build (hashbucket_env cfg merger) (File ''out.bagz'') 200000
                [(''hello'', [1])] w) = Some IOError"
proof -
  have b: "build [(''hello'', [1])] = [(''hello'', {1})]"
    by (simp add: build_def HashBucketWriter_add_def data_get_def)
  have "\<exists>bag. HashBucketWriter_write cfg (build [(''hello'', [1])]) = Inr bag"
    unfolding write_build_succeeds_iff using assms by (simp add: int64_ok_def)
  then obtain bag where wr: "HashBucketWriter_write cfg [(''hello'', {1})] = Inr bag"
    unfolding b by blast
  show ?thesis
    by (simp add: sharded_build_def builder_enter_def init_builder_def new_shard_writer_def
          hashbucket_env_def builder_exit_def write_current_shard_def merge_indices_def
          config_from_bagz_def add_record_def get_current_writer_def record_added_def
          HashBucketWriter_add_def wr data_get_def Let_def)
qed

end
